theory Spec2Isabelle
  imports Complex_Main "HOL-Library.Log_Nat"
begin

section \<open>Machine integers, durations and the clock\<close>

text \<open>
  Go's \<open>int\<close> and \<open>time.Duration\<close> are 64-bit signed integers here (amd64, arm64).
  They are modelled as HOL integers with the wrap-around of an addition written out.
  A \<open>time.Time\<close> is modelled by its monotonic clock reading in nanoseconds.
\<close>

definition int64_min :: int where
  "int64_min = - 9223372036854775808"

definition int64_max :: int where
  "int64_max = 9223372036854775807"

definition wrap64 :: "int \<Rightarrow> int" where
  "wrap64 x = (x + 9223372036854775808) mod 18446744073709551616 - 9223372036854775808"

text \<open>Go's \<open>/\<close> and \<open>%\<close> on integers: the quotient is truncated towards zero, and
  the remainder is what the quotient leaves.\<close>

definition trunc_div :: "int \<Rightarrow> int \<Rightarrow> int" where
  "trunc_div a b = sgn a * sgn b * (\<bar>a\<bar> div \<bar>b\<bar>)"

definition trunc_mod :: "int \<Rightarrow> int \<Rightarrow> int" where
  "trunc_mod a b = a - trunc_div a b * b"

definition Minute :: int where
  "Minute = 60000000000"

text \<open>\<open>t.Sub(u)\<close>: the difference, saturated to the range of a Duration.\<close>

definition time_Sub :: "int \<Rightarrow> int \<Rightarrow> int" where
  "time_Sub t u =
     (let d = t - u
      in if d < int64_min then int64_min else if int64_max < d then int64_max else d)"

section \<open>Floating-point numbers\<close>

text \<open>
  A \<open>float64\<close> is modelled by the rational number it stands for. \<open>f64 x\<close> is the result of
  an operation or conversion whose exact value is \<open>x\<close>: the nearest number with 53
  significant bits and, of two nearest ones, the one whose last bit is zero (IEEE 754,
  round to nearest even). The exponent is not bounded here: the numbers that the rate
  limiter rounds are zero or lie between \<open>2^-36\<close> and \<open>2^91\<close> in magnitude, far inside
  the range of the normal numbers of the format, which ends at \<open>2^-1022\<close> and \<open>2^1024\<close>.

  \<open>ilog2 x\<close> is the exponent of \<open>x \<noteq> 0\<close>, the largest \<open>e\<close> with \<open>2^e \<le> \<bar>x\<bar>\<close>. The
  bit lengths of numerator and denominator give it up to one, which the comparison settles.
\<close>

definition ilog2 :: "rat \<Rightarrow> int" where
  "ilog2 x =
     (let (p, q) = quotient_of \<bar>x\<bar>;
          k = bitlen p - bitlen q
      in if 2 powi k \<le> \<bar>x\<bar> then k else k - 1)"

definition round_even :: "rat \<Rightarrow> int" where
  "round_even y =
     (let n = \<lfloor>y\<rfloor>; f = y - of_int n
      in if f < 1 / 2 then n
         else if 1 / 2 < f then n + 1
         else if even n then n else n + 1)"

definition f64 :: "rat \<Rightarrow> rat" where
  "f64 x =
     (if x = 0 then 0
      else (let ulp = 2 powi (ilog2 x - 52)
            in of_int (round_even (x / ulp)) * ulp))"

text \<open>The conversion of a floating-point number to an integer discards the fraction.\<close>

definition int_of_float :: "rat \<Rightarrow> int" where
  "int_of_float x = (if 0 \<le> x then \<lfloor>x\<rfloor> else \<lceil>x\<rceil>)"

text \<open>
  \<open>Duration.Minutes\<close> of package \<open>time\<close>:
  \<open>min := d / Minute; nsec := d % Minute; return float64(min) + float64(nsec)/(60*1e9)\<close>.
  The constant \<open>60*1e9\<close> is a floating-point number as it stands.
\<close>

definition Minutes :: "int \<Rightarrow> rat" where
  "Minutes d =
     (let min = trunc_div d Minute;
          nsec = trunc_mod d Minute
      in f64 (f64 (of_int min) + f64 (f64 (of_int nsec) / 60000000000)))"

text \<open>The numbers that \<open>int(elapsed.Minutes() * float64(perIP))\<close> rounds, in the
  order of the operations, and the range they are in.\<close>

definition rounded :: "int \<Rightarrow> int \<Rightarrow> rat list" where
  "rounded elapsed perIP =
     (let min = trunc_div elapsed Minute;
          nsec = trunc_mod elapsed Minute;
          q = f64 (of_int nsec) / 60000000000;
          s = f64 (of_int min) + f64 q
      in [of_int min, of_int nsec, q, s, of_int perIP, f64 s * f64 (of_int perIP)])"

definition normal_or_zero :: "rat \<Rightarrow> bool" where
  "normal_or_zero x = (x = 0 \<or> (1 / 2 ^ 36 \<le> \<bar>x\<bar> \<and> \<bar>x\<bar> \<le> 2 ^ 91))"

text \<open>The relative error of one rounding, and a bound for five of them.\<close>

definition u53 :: rat where
  "u53 = 1 / 2 ^ 53"

definition eps50 :: rat where
  "eps50 = 1 / 2 ^ 50"

section \<open>The rate limiter (middleware.go)\<close>

record RateLimitConfig =
  RL_Enabled :: bool
  RequestsPerIP :: int
  BurstSize :: int

record visitor =
  lastSeen :: int
  tokens :: int

type_synonym visitors = "string \<rightharpoonup> visitor"

text \<open>The first lines of \<open>allow\<close>: the capacity of a bucket.\<close>

definition capacity_of :: "RateLimitConfig \<Rightarrow> int" where
  "capacity_of cfg =
     (let capacity = BurstSize cfg;
          capacity = (if capacity \<le> 0 then RequestsPerIP cfg else capacity)
      in if capacity \<le> 0 then 1 else capacity)"

text \<open>
  \<open>int(elapsed.Minutes() * float64(rl.config.RequestsPerIP))\<close>: the rate is converted
  to a floating-point number, the product is rounded, and the conversion to \<open>int\<close>
  discards the fraction. (A division, an addition and a multiplication follow one another
  here; there is no product feeding a sum that a fused operation could round once.) Where
  the result does not fit 64 bits, Go leaves the converted value to the implementation:
  \<open>oor\<close> stands for that choice.
\<close>

definition tokensToAdd :: "(int \<Rightarrow> int) \<Rightarrow> int \<Rightarrow> int \<Rightarrow> int" where
  "tokensToAdd oor elapsed perIP =
     (let q = int_of_float (f64 (Minutes elapsed * f64 (of_int perIP)))
      in if int64_min \<le> q \<and> q \<le> int64_max then q else wrap64 (oor q))"

text \<open>\<open>RateLimiter.allow\<close>, with the reading of \<open>time.Now()\<close> as the argument \<open>now\<close>.
  The result is the boolean returned and the visitor map after the call.\<close>

definition allow ::
  "(int \<Rightarrow> int) \<Rightarrow> RateLimitConfig \<Rightarrow> int \<Rightarrow> string \<Rightarrow> visitors \<Rightarrow> bool \<times> visitors" where
  "allow oor cfg now ip vs =
     (let capacity = capacity_of cfg
      in case vs ip of
           None \<Rightarrow>
             (let initialTokens = capacity - 1;
                  initialTokens = (if initialTokens < 0 then 0 else initialTokens)
              in (True, vs(ip \<mapsto> \<lparr>lastSeen = now, tokens = initialTokens\<rparr>)))
         | Some v \<Rightarrow>
             (let elapsed = time_Sub now (lastSeen v);
                  t1 = wrap64 (tokens v + tokensToAdd oor elapsed (RequestsPerIP cfg));
                  t2 = (if t1 > capacity then capacity else t1)
              in if t2 > 0
                 then (True, vs(ip \<mapsto> \<lparr>lastSeen = now, tokens = t2 - 1\<rparr>))
                 else (False, vs(ip \<mapsto> \<lparr>lastSeen = now, tokens = t2\<rparr>))))"

text \<open>One pass of the loop body of \<open>cleanupVisitors\<close>, at clock reading \<open>now\<close>.\<close>

definition cleanupVisitors :: "int \<Rightarrow> visitors \<Rightarrow> visitors" where
  "cleanupVisitors now vs =
     (\<lambda>ip. case vs ip of
              None \<Rightarrow> None
            | Some v \<Rightarrow> if time_Sub now (lastSeen v) > 3 * Minute then None else Some v)"

text \<open>A run of the limiter: calls of \<open>allow\<close> and eviction sweeps, each at a clock
  reading, starting from the empty map of \<open>NewRateLimiter\<close>.\<close>

datatype event = Allow int string | Sweep int

fun event_time :: "event \<Rightarrow> int" where
  "event_time (Allow now ip) = now"
| "event_time (Sweep now) = now"

fun step :: "(int \<Rightarrow> int) \<Rightarrow> RateLimitConfig \<Rightarrow> visitors \<Rightarrow> event \<Rightarrow> visitors" where
  "step oor cfg vs (Allow now ip) = snd (allow oor cfg now ip vs)"
| "step oor cfg vs (Sweep now) = cleanupVisitors now vs"

definition run :: "(int \<Rightarrow> int) \<Rightarrow> RateLimitConfig \<Rightarrow> event list \<Rightarrow> visitors" where
  "run oor cfg evs = foldl (step oor cfg) Map.empty evs"

text \<open>The monotonic clock: readings never decrease and fit a Duration.\<close>

definition clock_ok :: "event list \<Rightarrow> bool" where
  "clock_ok evs =
     (sorted (map event_time evs) \<and> list_all (\<lambda>e. 0 \<le> event_time e \<and> event_time e \<le> int64_max) evs)"

text \<open>Rates of at most a million per minute and capacities of at most \<open>2^62\<close>: the
  refill then stays within one token of the exact product, and the token count cannot wrap.\<close>

definition no_overflow :: "RateLimitConfig \<Rightarrow> bool" where
  "no_overflow cfg =
     (RequestsPerIP cfg \<le> 1000000 \<and> capacity_of cfg \<le> 4611686018427387904)"

text \<open>The algorithm as the specification words it (section 4.2), on unbounded integers. The
  rule for the refill is a parameter; the rule of the specification is
  \<open>refill = floor(elapsedMinutes \<times> requestsPerPeriod)\<close>, with the elapsed time in
  nanoseconds.\<close>

definition refill_spec :: "int \<Rightarrow> int \<Rightarrow> int" where
  "refill_spec elapsed perPeriod =
     \<lfloor>(real_of_int elapsed / real_of_int Minute) * real_of_int perPeriod\<rfloor>"

definition allow_by ::
  "(int \<Rightarrow> int \<Rightarrow> int) \<Rightarrow> RateLimitConfig \<Rightarrow> int \<Rightarrow> string \<Rightarrow> visitors \<Rightarrow> bool \<times> visitors" where
  "allow_by rule cfg now ip vs =
     (case vs ip of
        None \<Rightarrow> (True, vs(ip \<mapsto> \<lparr>lastSeen = now, tokens = capacity_of cfg - 1\<rparr>))
      | Some v \<Rightarrow>
          (let refill = rule (now - lastSeen v) (RequestsPerIP cfg);
               t = min (capacity_of cfg) (tokens v + refill)
           in if t > 0
              then (True, vs(ip \<mapsto> \<lparr>lastSeen = now, tokens = t - 1\<rparr>))
              else (False, vs(ip \<mapsto> \<lparr>lastSeen = now, tokens = 0\<rparr>))))"

definition allow_spec :: "RateLimitConfig \<Rightarrow> int \<Rightarrow> string \<Rightarrow> visitors \<Rightarrow> bool \<times> visitors" where
  "allow_spec cfg now ip vs = allow_by refill_spec cfg now ip vs"

text \<open>The invariant of the specification's data model, with the clock bound.\<close>

definition vs_inv :: "RateLimitConfig \<Rightarrow> int \<Rightarrow> visitors \<Rightarrow> bool" where
  "vs_inv cfg now vs =
     (\<forall>ip v. vs ip = Some v \<longrightarrow>
        0 \<le> tokens v \<and> tokens v \<le> capacity_of cfg \<and> 0 \<le> lastSeen v \<and> lastSeen v \<le> now)"

text \<open>The configuration of \<open>TestRateLimitMiddleware\<close>, one with nine requests per minute
  and a burst of twenty, and one with a negative rate.\<close>

definition test_config :: RateLimitConfig where
  "test_config = \<lparr>RL_Enabled = True, RequestsPerIP = 2, BurstSize = 2\<rparr>"

definition nine_per_minute :: RateLimitConfig where
  "nine_per_minute = \<lparr>RL_Enabled = True, RequestsPerIP = 9, BurstSize = 20\<rparr>"

definition negative_rate_config :: RateLimitConfig where
  "negative_rate_config = \<lparr>RL_Enabled = True, RequestsPerIP = - 1, BurstSize = 2\<rparr>"

section \<open>Strings, paths and addresses (the Go library, as used by the server)\<close>

text \<open>Package \<open>strings\<close>. A Go string is a sequence of bytes, as an Isabelle string is.
  \<open>Split\<close> is \<open>strings.Split\<close> for a separator of one byte.\<close>

definition HasPrefix :: "string \<Rightarrow> string \<Rightarrow> bool" where
  "HasPrefix s pre = (take (length pre) s = pre)"

fun Contains :: "string \<Rightarrow> string \<Rightarrow> bool" where
  "Contains [] substr = (substr = [])"
| "Contains (c # s) substr = (HasPrefix (c # s) substr \<or> Contains s substr)"

fun Split :: "string \<Rightarrow> char \<Rightarrow> string list" where
  "Split [] sep = [[]]"
| "Split (c # s) sep =
     (if c = sep then [] # Split s sep
      else (c # hd (Split s sep)) # tl (Split s sep))"

fun Join :: "string list \<Rightarrow> string \<Rightarrow> string" where
  "Join [] sep = []"
| "Join [e] sep = e"
| "Join (e # es) sep = e @ sep @ Join es sep"

definition Trim :: "string \<Rightarrow> string \<Rightarrow> string" where
  "Trim s cutset =
     rev (dropWhile (\<lambda>c. c \<in> set cutset) (rev (dropWhile (\<lambda>c. c \<in> set cutset) s)))"

fun IndexByte :: "string \<Rightarrow> char \<Rightarrow> nat option" where
  "IndexByte [] c = None"
| "IndexByte (x # s) c = (if x = c then Some 0 else map_option Suc (IndexByte s c))"

definition LastIndexByte :: "string \<Rightarrow> char \<Rightarrow> nat option" where
  "LastIndexByte s c =
     (case IndexByte (rev s) c of None \<Rightarrow> None | Some i \<Rightarrow> Some (length s - 1 - i))"

text \<open>
  \<open>filepath.Clean\<close> on Unix (no volume name, separator \<open>/\<close>), as the library writes
  it: a loop over the bytes of the path with a read index and an output buffer. Here
  \<open>rest\<close> is the path from the read index on, \<open>out\<close> the buffer up to its write index,
  and \<open>dotdot\<close> the index in the buffer where backtracking must stop. \<open>at_separator\<close>
  is the test that the read index is at the end of the path or at a separator.
  \<open>backtrack\<close> is the inner loop of the \<open>..\<close> case: it steps the write index back once,
  and then for as long as it is above \<open>dotdot\<close> and the byte just stepped over is not a
  separator.
\<close>

definition is_rooted :: "string \<Rightarrow> bool" where
  "is_rooted path = (case path of [] \<Rightarrow> False | c # s \<Rightarrow> c = CHR ''/'')"

definition at_separator :: "string \<Rightarrow> bool" where
  "at_separator rest = (case rest of [] \<Rightarrow> True | c # s \<Rightarrow> c = CHR ''/'')"

function bt_loop :: "string \<Rightarrow> char \<Rightarrow> nat \<Rightarrow> string" where
  "bt_loop out removed dotdot =
     (if length out > dotdot \<and> removed \<noteq> CHR ''/''
      then bt_loop (butlast out) (last out) dotdot
      else out)"
  by pat_completeness auto
termination
  by (relation "measure (\<lambda>(out, removed, dotdot). length out)") auto

definition backtrack :: "string \<Rightarrow> nat \<Rightarrow> string" where
  "backtrack out dotdot = bt_loop (butlast out) (last out) dotdot"

function clean_loop :: "bool \<Rightarrow> string \<Rightarrow> string \<Rightarrow> nat \<Rightarrow> string" where
  "clean_loop rooted [] out dotdot = out"
| "clean_loop rooted (c # rest) out dotdot =
     (if c = CHR ''/'' then clean_loop rooted rest out dotdot
      else if c = CHR ''.'' \<and> at_separator rest then clean_loop rooted rest out dotdot
      else if c = CHR ''.'' \<and> take 1 rest = ''.'' \<and> at_separator (drop 1 rest) then
        (if length out > dotdot
         then clean_loop rooted (drop 1 rest) (backtrack out dotdot) dotdot
         else if \<not> rooted
         then (let out' = (if length out > 0 then out @ ''/'' else out) @ ''..''
               in clean_loop rooted (drop 1 rest) out' (length out'))
         else clean_loop rooted (drop 1 rest) out dotdot)
      else
        (let out' = (if rooted \<and> length out \<noteq> 1 \<or> \<not> rooted \<and> length out \<noteq> 0
                     then out @ ''/'' else out)
         in clean_loop rooted (dropWhile (\<lambda>x. x \<noteq> CHR ''/'') rest)
              (out' @ c # takeWhile (\<lambda>x. x \<noteq> CHR ''/'') rest) dotdot))"
  by pat_completeness auto
termination
  by (relation "measure (\<lambda>(rooted, rest, out, dotdot). length rest)")
     (auto simp: length_dropWhile_le le_imp_less_Suc)

definition Clean :: "string \<Rightarrow> string" where
  "Clean path =
     (if path = [] then ''.''
      else
        (let rooted = is_rooted path;
             out = (if rooted then clean_loop rooted (tl path) ''/'' 1
                    else clean_loop rooted path [] 0)
         in if out = [] then ''.'' else out))"

text \<open>
  The same algorithm read element by element, for the proofs (lemma \<open>Clean_by_elements\<close>
  shows that it computes \<open>Clean\<close>): the path is cut at its separators; an empty element
  and a \<open>.\<close> element are dropped; a \<open>..\<close> element removes the last element written if
  there is one above the mark, is appended (and the mark moved behind it) if the path is not
  rooted, and is dropped at the root; any other element is appended. \<open>buffer_of\<close> is the
  buffer that holds given elements.
\<close>

fun clean_elem :: "bool \<Rightarrow> string list \<times> nat \<Rightarrow> string \<Rightarrow> string list \<times> nat" where
  "clean_elem rooted (out, dotdot) e =
     (if e = [] then (out, dotdot)
      else if e = ''.'' then (out, dotdot)
      else if e = ''..'' then
        (if length out > dotdot then (butlast out, dotdot)
         else if \<not> rooted then (out @ [''..''], length out + 1)
         else (out, dotdot))
      else (out @ [e], dotdot))"

definition render :: "bool \<Rightarrow> string list \<Rightarrow> string" where
  "render rooted out =
     (let s = (if rooted then ''/'' else []) @ Join out ''/''
      in if s = [] then ''.'' else s)"

definition buffer_of :: "bool \<Rightarrow> string list \<Rightarrow> string" where
  "buffer_of R xs = (if R then ''/'' else []) @ Join xs ''/''"

definition elements_ok :: "string list \<Rightarrow> bool" where
  "elements_ok xs = (\<forall>x\<in>set xs. x \<noteq> [] \<and> CHR ''/'' \<notin> set x)"

text \<open>\<open>filepath.Join\<close>: the elements from the first non-empty one on, joined and cleaned.\<close>

fun filepath_Join :: "string list \<Rightarrow> string" where
  "filepath_Join [] = []"
| "filepath_Join (e # es) = (if e \<noteq> [] then Clean (Join (e # es) ''/'') else filepath_Join es)"

text \<open>\<open>net.SplitHostPort\<close>, with its errors as values.\<close>

datatype AddrError =
  MissingPort | TooManyColons | MissingClosingBracket | UnexpectedOpeningBracket
  | UnexpectedClosingBracket

definition bracket_checks ::
  "string \<Rightarrow> nat \<Rightarrow> string \<Rightarrow> nat \<Rightarrow> nat \<Rightarrow> AddrError + string \<times> string" where
  "bracket_checks hostport i host j k =
     (if IndexByte (drop j hostport) CHR ''['' \<noteq> None then Inl UnexpectedOpeningBracket
      else if IndexByte (drop k hostport) CHR '']'' \<noteq> None then Inl UnexpectedClosingBracket
      else Inr (host, drop (i + 1) hostport))"

definition SplitHostPort :: "string \<Rightarrow> AddrError + string \<times> string" where
  "SplitHostPort hostport =
     (case LastIndexByte hostport CHR '':'' of
        None \<Rightarrow> Inl MissingPort
      | Some i \<Rightarrow>
          if HasPrefix hostport ''[''
          then (case IndexByte hostport CHR '']'' of
                  None \<Rightarrow> Inl MissingClosingBracket
                | Some e \<Rightarrow>
                    if e + 1 = length hostport then Inl MissingPort
                    else if e + 1 = i
                      then bracket_checks hostport i (take (e - 1) (drop 1 hostport)) 1 (e + 1)
                    else if hostport ! (e + 1) = CHR '':'' then Inl TooManyColons
                    else Inl MissingPort)
          else (let host = take i hostport
                in if IndexByte host CHR '':'' \<noteq> None then Inl TooManyColons
                   else bracket_checks hostport i host 0 0))"

text \<open>\<open>strconv.Itoa\<close> and the verb \<open>%x\<close> of \<open>fmt\<close> on an integer.\<close>

fun digits :: "nat \<Rightarrow> nat \<Rightarrow> string" where
  "digits b n =
     (if b < 2 \<or> n < b then [''0123456789abcdef'' ! n]
      else digits b (n div b) @ [''0123456789abcdef'' ! (n mod b)])"

definition Itoa :: "int \<Rightarrow> string" where
  "Itoa i = (if i < 0 then CHR ''-'' # digits 10 (nat (- i)) else digits 10 (nat i))"

definition fmt_x :: "int \<Rightarrow> string" where
  "fmt_x i = (if i < 0 then CHR ''-'' # digits 16 (nat (- i)) else digits 16 (nat i))"

section \<open>Requests, response writers and handlers (net/http)\<close>

text \<open>
  A request carries what the interceptors read. A response writer is modelled by its state:
  the header map, the status once \<open>WriteHeader\<close> has been called, and the chunks written,
  each with the writer it went through. A handler takes the request and the state of the
  writer and returns the state after it has run; an interceptor maps a handler to a handler.
\<close>

record request =
  Method :: string
  URL_Path :: string
  Header :: "string \<rightharpoonup> string"
  RemoteAddr :: string

datatype writer = Plain | Gzip int

record response =
  header :: "string \<rightharpoonup> string"
  statusCode :: "nat option"
  written :: "(writer \<times> string) list"
  via :: writer

type_synonym handler = "request \<Rightarrow> response \<Rightarrow> response"

type_synonym Middleware = "handler \<Rightarrow> handler"

definition Header_Get :: "request \<Rightarrow> string \<Rightarrow> string" where
  "Header_Get r key = (case Header r key of None \<Rightarrow> [] | Some v \<Rightarrow> v)"

definition Header_Set :: "response \<Rightarrow> string \<Rightarrow> string \<Rightarrow> response" where
  "Header_Set w key v = w\<lparr>header := (header w)(key \<mapsto> v)\<rparr>"

definition Header_Del :: "response \<Rightarrow> string \<Rightarrow> response" where
  "Header_Del w key = w\<lparr>header := (header w)(key := None)\<rparr>"

text \<open>Only the first call of \<open>WriteHeader\<close> sets the status; a \<open>Write\<close> before any
  \<open>WriteHeader\<close> sets 200.\<close>

definition WriteHeader :: "response \<Rightarrow> nat \<Rightarrow> response" where
  "WriteHeader w code = (if statusCode w = None then w\<lparr>statusCode := Some code\<rparr> else w)"

definition Write :: "response \<Rightarrow> string \<Rightarrow> response" where
  "Write w b = (let w' = WriteHeader w 200 in w'\<lparr>written := written w' @ [(via w', b)]\<rparr>)"

text \<open>\<open>http.Error\<close>: it drops \<open>Content-Length\<close>, sets the content type and the
  no-sniff header, writes the status and then the message with a newline.\<close>

definition http_Error :: "response \<Rightarrow> string \<Rightarrow> nat \<Rightarrow> response" where
  "http_Error w msg code =
     (let w1 = Header_Del w ''Content-Length'';
          w2 = Header_Set w1 ''Content-Type'' ''text/plain; charset=utf-8'';
          w3 = Header_Set w2 ''X-Content-Type-Options'' ''nosniff'';
          w4 = WriteHeader w3 code
      in Write w4 (msg @ [CHR 0x0A]))"

definition StatusNoContent :: nat where "StatusNoContent = 204"
definition StatusNotModified :: nat where "StatusNotModified = 304"
definition StatusForbidden :: nat where "StatusForbidden = 403"

text \<open>The recorder, the request and the handler of the tests: a writer nothing has been
  written to, a \<open>GET\<close> request without header fields, and a handler that answers 200 with
  the body \<open>OK\<close>.\<close>

definition NewRecorder :: response where
  "NewRecorder = \<lparr>header = Map.empty, statusCode = None, written = [], via = Plain\<rparr>"

definition NewRequest :: "string \<Rightarrow> string \<Rightarrow> request" where
  "NewRequest method target =
     \<lparr>Method = method, URL_Path = target, Header = Map.empty, RemoteAddr = ''192.0.2.1:1234''\<rparr>"

definition testHandler :: handler where
  "testHandler r w = Write (WriteHeader w 200) ''OK''"

section \<open>The interceptors (middleware.go)\<close>

text \<open>\<open>BlockHiddenFilesMiddleware\<close>: the loop over the parts, with its early return.\<close>

fun hidden_part :: "string list \<Rightarrow> bool" where
  "hidden_part [] = False"
| "hidden_part (part # parts) =
     (if HasPrefix part ''.'' \<and> part \<noteq> ''.'' \<and> part \<noteq> ''..'' then True
      else hidden_part parts)"

definition BlockHiddenFilesMiddleware :: "string \<Rightarrow> Middleware" where
  "BlockHiddenFilesMiddleware rootDir next r w =
     (let parts = Split (Clean (URL_Path r)) CHR ''/''
      in if hidden_part parts then http_Error w ''403 Forbidden'' StatusForbidden
         else next r w)"

text \<open>\<open>PathTraversalMiddleware\<close>. The source assigns the clean path to the request it was
  given; the model forwards the updated request.\<close>

definition PathTraversalMiddleware :: "string \<Rightarrow> Middleware" where
  "PathTraversalMiddleware rootDir next r w =
     (let cleanPath = Clean (URL_Path r)
      in if Contains cleanPath ''..'' then http_Error w ''403 Forbidden'' StatusForbidden
         else next (r\<lparr>URL_Path := cleanPath\<rparr>) w)"

text \<open>\<open>CORSMiddleware\<close>.\<close>

record CORSConfig =
  CORS_Enabled :: bool
  AllowedOrigins :: "string list"
  AllowedMethods :: "string list"
  AllowedHeaders :: "string list"
  AllowCredentials :: bool
  MaxAge :: int

fun origin_allowed :: "string list \<Rightarrow> string \<Rightarrow> bool" where
  "origin_allowed [] origin = False"
| "origin_allowed (allowedOrigin # rest) origin =
     (if allowedOrigin = ''*'' \<or> allowedOrigin = origin then True
      else origin_allowed rest origin)"

definition cors_headers :: "CORSConfig \<Rightarrow> string \<Rightarrow> response \<Rightarrow> response" where
  "cors_headers config origin w =
     (let w1 = (if length (AllowedOrigins config) = 1 \<and> AllowedOrigins config ! 0 = ''*''
                then Header_Set w ''Access-Control-Allow-Origin'' ''*''
                else Header_Set w ''Access-Control-Allow-Origin'' origin);
          w2 = (if length (AllowedMethods config) > 0
                then Header_Set w1 ''Access-Control-Allow-Methods'' (Join (AllowedMethods config) '', '')
                else w1);
          w3 = (if length (AllowedHeaders config) > 0
                then Header_Set w2 ''Access-Control-Allow-Headers'' (Join (AllowedHeaders config) '', '')
                else w2);
          w4 = (if AllowCredentials config
                then Header_Set w3 ''Access-Control-Allow-Credentials'' ''true''
                else w3)
      in if MaxAge config > 0
         then Header_Set w4 ''Access-Control-Max-Age'' (Itoa (MaxAge config))
         else w4)"

definition CORSMiddleware :: "CORSConfig \<Rightarrow> Middleware" where
  "CORSMiddleware config next r w =
     (if \<not> CORS_Enabled config then next r w
      else
        (let origin = Header_Get r ''Origin'';
             allowed = origin_allowed (AllowedOrigins config) origin;
             w1 = (if allowed then cors_headers config origin w else w)
         in if Method r = ''OPTIONS'' then WriteHeader w1 StatusNoContent
            else next r w1))"

text \<open>\<open>clientIP\<close> and \<open>IPFilterMiddleware\<close>; \<open>listed\<close> is either loop over a list.\<close>

definition clientIP :: "string \<Rightarrow> string" where
  "clientIP remoteAddr =
     (case SplitHostPort remoteAddr of
        Inl err \<Rightarrow> Trim remoteAddr ''[]''
      | Inr (host, port) \<Rightarrow> host)"

fun listed :: "string \<Rightarrow> string list \<Rightarrow> bool" where
  "listed ip [] = False"
| "listed ip (entry # rest) = (if ip = entry then True else listed ip rest)"

definition IPFilterMiddleware :: "string list \<Rightarrow> string list \<Rightarrow> Middleware" where
  "IPFilterMiddleware whitelist blacklist next r w =
     (let ip = clientIP (RemoteAddr r)
      in if listed ip blacklist then http_Error w ''403 Forbidden'' StatusForbidden
         else if length whitelist > 0 \<and> \<not> listed ip whitelist
           then http_Error w ''403 Forbidden'' StatusForbidden
         else next r w)"

text \<open>The deferred \<open>gz.Close()\<close>: it ends the gzip stream, and the end of the stream
  reaches the underlying writer (with it the status 200, if none has been written) also when
  the handler has written nothing. The model records it as a last chunk of the gzip writer,
  without payload.\<close>

definition gzip_Close :: "int \<Rightarrow> response \<Rightarrow> response" where
  "gzip_Close level w = Write (w\<lparr>via := Gzip level\<rparr>) []"

text \<open>\<open>CompressionMiddleware\<close>. \<open>gzip.NewWriterLevel\<close> fails for a level below -2 or
  above 9. The handler behind a gzip writer writes through it; when it returns, the stream
  is closed and the writer of the caller is the one it had.\<close>

definition CompressionMiddleware :: "int \<Rightarrow> Middleware" where
  "CompressionMiddleware level next r w =
     (if \<not> Contains (Header_Get r ''Accept-Encoding'') ''gzip'' then next r w
      else
        (let w1 = Header_Set w ''Content-Encoding'' ''gzip''
         in if level < - 2 \<or> 9 < level then next r w1
            else (gzip_Close level (next r (w1\<lparr>via := Gzip level\<rparr>)))\<lparr>via := via w\<rparr>))"

section \<open>The file handler (server.go)\<close>

text \<open>The path that \<open>createFileHandler\<close> stats and serves.\<close>

definition resolve_path :: "string \<Rightarrow> string \<Rightarrow> string" where
  "resolve_path rootDir urlPath = filepath_Join [rootDir, Clean urlPath]"

record FileInfo =
  Name :: string
  Size :: int
  ModTime_Unix :: int
  IsDir :: bool

definition etag_of :: "FileInfo \<Rightarrow> string" where
  "etag_of info = [CHR 0x22] @ fmt_x (ModTime_Unix info) @ ''-'' @ fmt_x (Size info) @ [CHR 0x22]"

text \<open>\<open>serveFile\<close>; \<open>http.ServeFile\<close>, which reads the file, is the parameter
  \<open>ServeFile\<close>.\<close>

definition serveFile ::
  "bool \<Rightarrow> (response \<Rightarrow> request \<Rightarrow> string \<Rightarrow> response) \<Rightarrow> response \<Rightarrow> request \<Rightarrow> string \<Rightarrow> FileInfo
     \<Rightarrow> response" where
  "serveFile EnableETags ServeFile w r path info =
     (if EnableETags
      then (let etag = etag_of info;
                w1 = Header_Set w ''ETag'' etag;
                match = Header_Get r ''If-None-Match''
            in if match \<noteq> [] \<and> match = etag then WriteHeader w1 StatusNotModified
               else ServeFile w1 r path)
      else ServeFile w r path)"

text \<open>An element that \<open>Clean\<close> writes: not empty, not \<open>.\<close>, without a separator.\<close>

definition plain_element :: "string \<Rightarrow> bool" where
  "plain_element e = (e \<noteq> [] \<and> e \<noteq> ''.'' \<and> CHR ''/'' \<notin> set e)"

text \<open>
  Containment in the root, on the elements of a path: the path has the elements of the
  cleaned root as a prefix, none of the elements after them is \<open>..\<close>, and it is rooted
  exactly if the cleaned root is.
\<close>

definition elements :: "string \<Rightarrow> string list" where
  "elements path = filter (\<lambda>e. e \<noteq> [] \<and> e \<noteq> ''.'') (Split path CHR ''/'')"

definition within_root :: "string \<Rightarrow> string \<Rightarrow> bool" where
  "within_root rootDir path =
     (let rs = elements (Clean rootDir); ps = elements path
      in is_rooted path = is_rooted (Clean rootDir)
         \<and> take (length rs) ps = rs
         \<and> ''..'' \<notin> set (drop (length rs) ps))"

text \<open>Requests and configurations used as examples below.\<close>

definition with_header :: "request \<Rightarrow> string \<Rightarrow> string \<Rightarrow> request" where
  "with_header r key v = r\<lparr>Header := (Header r)(key \<mapsto> v)\<rparr>"

definition wildcard_among_origins :: CORSConfig where
  "wildcard_among_origins =
     \<lparr>CORS_Enabled = True, AllowedOrigins = [''*'', ''https://example.com''],
      AllowedMethods = [], AllowedHeaders = [], AllowCredentials = False, MaxAge = 0\<rparr>"

definition test_cors_config :: CORSConfig where
  "test_cors_config =
     \<lparr>CORS_Enabled = True, AllowedOrigins = [''https://example.com''],
      AllowedMethods = [''GET'', ''POST''], AllowedHeaders = [''Content-Type''],
      AllowCredentials = True, MaxAge = 3600\<rparr>"

definition test_file :: FileInfo where
  "test_file = \<lparr>Name = ''index.html'', Size = 1234, ModTime_Unix = 1700000000, IsDir = False\<rparr>"

section \<open>Floating-point rounding\<close>

text \<open>The exponent that \<open>ilog2\<close> computes is the exponent: \<open>2^e \<le> \<bar>x\<bar> < 2^(e+1)\<close>.\<close>

lemma ilog2_le:
  assumes "x \<noteq> 0"
  shows "2 powi (ilog2 x) \<le> \<bar>x\<bar>"
proof -
  obtain p q where pq: "quotient_of \<bar>x\<bar> = (p, q)" by (cases "quotient_of \<bar>x\<bar>")
  have q: "0 < q" using pq by (rule quotient_of_denom_pos)
  have x: "\<bar>x\<bar> = of_int p / of_int q" using pq by (rule quotient_of_div)
  have "0 < \<bar>x\<bar>" using assms by simp
  then have p: "0 < p" using q x by (simp add: zero_less_divide_iff)
  let ?k = "bitlen p - bitlen q"
  show ?thesis
  proof (cases "2 powi ?k \<le> \<bar>x\<bar>")
    case True
    then show ?thesis by (simp add: ilog2_def pq)
  next
    case False
    then have i: "ilog2 x = ?k - 1" by (simp add: ilog2_def pq)
    have bp: "2 ^ nat (bitlen p - 1) \<le> p" using bitlen_bounds [OF p] by simp
    have bq: "q < 2 ^ nat (bitlen q)" using bitlen_bounds [OF q] by simp
    have p1: "1 \<le> bitlen p" using p bitlen_eq_zero_iff [of p] bitlen_nonneg [of p] by linarith
    have q1: "0 \<le> bitlen q" by (rule bitlen_nonneg)
    have "(2::rat) powi (?k - 1) = 2 powi (bitlen p - 1) / 2 powi (bitlen q)"
      using power_int_diff [of "2::rat" "bitlen p - 1" "bitlen q"] by (simp add: algebra_simps)
    also have "\<dots> = 2 ^ nat (bitlen p - 1) / 2 ^ nat (bitlen q)"
      using p1 q1 by (simp add: power_int_nonneg_exp)
    also have "\<dots> \<le> of_int p / of_int q"
    proof -
      have a: "(2::rat) ^ nat (bitlen p - 1) \<le> of_int p"
        using bp by (metis of_int_le_iff of_int_numeral of_int_power)
      have b: "(of_int q :: rat) \<le> 2 ^ nat (bitlen q)"
        using bq by (metis less_imp_le of_int_le_iff of_int_numeral of_int_power)
      have c: "(0::rat) < of_int q" using q by simp
      have d: "(0::rat) \<le> of_int p" using p by simp
      show ?thesis
        using a b c d by (intro frac_le)
    qed
    finally show ?thesis using i x by simp
  qed
qed

lemma ilog2_less:
  assumes "x \<noteq> 0"
  shows "\<bar>x\<bar> < 2 powi (ilog2 x + 1)"
proof -
  obtain p q where pq: "quotient_of \<bar>x\<bar> = (p, q)" by (cases "quotient_of \<bar>x\<bar>")
  have q: "0 < q" using pq by (rule quotient_of_denom_pos)
  have x: "\<bar>x\<bar> = of_int p / of_int q" using pq by (rule quotient_of_div)
  have "0 < \<bar>x\<bar>" using assms by simp
  then have p: "0 < p" using q x by (simp add: zero_less_divide_iff)
  let ?k = "bitlen p - bitlen q"
  show ?thesis
  proof (cases "2 powi ?k \<le> \<bar>x\<bar>")
    case False
    then show ?thesis by (simp add: ilog2_def pq)
  next
    case True
    then have i: "ilog2 x = ?k" by (simp add: ilog2_def pq)
    have bp: "p < 2 ^ nat (bitlen p)" using bitlen_bounds [OF p] by simp
    have bq: "2 ^ nat (bitlen q - 1) \<le> q" using bitlen_bounds [OF q] by simp
    have p1: "0 \<le> bitlen p" by (rule bitlen_nonneg)
    have q1: "1 \<le> bitlen q" using q bitlen_eq_zero_iff [of q] bitlen_nonneg [of q] by linarith
    have a: "(of_int p :: rat) < 2 ^ nat (bitlen p)"
      using bp by (metis of_int_less_iff of_int_numeral of_int_power)
    have b: "(2::rat) ^ nat (bitlen q - 1) \<le> of_int q"
      using bq by (metis of_int_le_iff of_int_numeral of_int_power)
    have "of_int p / of_int q < (2::rat) ^ nat (bitlen p) / 2 ^ nat (bitlen q - 1)"
      using a b p by (intro frac_less) simp_all
    also have "\<dots> = 2 powi (bitlen p) / 2 powi (bitlen q - 1)"
      using p1 q1 by (simp add: power_int_nonneg_exp)
    also have "\<dots> = 2 powi (?k + 1)"
      using power_int_diff [of "2::rat" "bitlen p" "bitlen q - 1"] by (simp add: algebra_simps)
    finally show ?thesis using i x by simp
  qed
qed

text \<open>Rounding errs by at most half a unit in the last place, which is a relative error of
  at most \<open>2^-53\<close>.\<close>

lemma round_even_err: "\<bar>of_int (round_even y) - y\<bar> \<le> 1 / 2"
proof -
  define n where "n = \<lfloor>y\<rfloor>"
  define f where "f = y - of_int n"
  have y: "y = of_int n + f" by (simp add: f_def)
  have f: "0 \<le> f" "f < 1" unfolding f_def n_def by linarith+
  have r: "round_even y = (if f < 1 / 2 then n else if 1 / 2 < f then n + 1
                           else if even n then n else n + 1)"
    by (simp add: round_even_def Let_def n_def f_def)
  have A: "\<bar>of_int n - y\<bar> \<le> 1 / 2" if "f \<le> 1 / 2"
  proof -
    have "of_int n - y = - f" by (simp add: f_def)
    then show ?thesis using that f by simp
  qed
  have B: "\<bar>of_int (n + 1) - y\<bar> \<le> 1 / 2" if "1 / 2 \<le> f"
  proof -
    have "of_int (n + 1) - y = 1 - f" by (simp add: f_def)
    then show ?thesis using that f by simp
  qed
  consider "f < 1 / 2" | "1 / 2 < f" | "f = 1 / 2" by linarith
  then show ?thesis
  proof cases
    case 1
    then have e: "round_even y = n" by (simp add: r)
    show ?thesis unfolding e using 1 by (intro A) simp
  next
    case 2
    then have e: "round_even y = n + 1" by (simp add: r)
    show ?thesis unfolding e using 2 by (intro B) simp
  next
    case 3
    then have "round_even y = n \<or> round_even y = n + 1" by (simp add: r)
    then show ?thesis
    proof
      assume e: "round_even y = n"
      show ?thesis unfolding e using 3 by (intro A) simp
    next
      assume e: "round_even y = n + 1"
      show ?thesis unfolding e using 3 by (intro B) simp
    qed
  qed
qed

lemma f64_err: "\<bar>f64 x - x\<bar> \<le> \<bar>x\<bar> / 2 ^ 53"
proof (cases "x = 0")
  case True
  then show ?thesis by (simp add: f64_def)
next
  case False
  define s :: rat where "s = 2 powi (ilog2 x - 52)"
  have s: "0 < s" by (simp add: s_def)
  have f: "f64 x = of_int (round_even (x / s)) * s" using False by (simp add: f64_def Let_def s_def)
  have "f64 x - x = (of_int (round_even (x / s)) - x / s) * s"
    using s by (simp add: f field_simps)
  then have "\<bar>f64 x - x\<bar> = \<bar>of_int (round_even (x / s)) - x / s\<bar> * s"
    using s by (simp add: abs_mult)
  also have "\<dots> \<le> (1 / 2) * s"
    using round_even_err [of "x / s"] s by (simp only: mult_right_mono less_imp_le)
  also have "\<dots> = 2 powi (ilog2 x) / 2 ^ 53"
  proof -
    have "(2::rat) powi (ilog2 x - 52) = 2 powi (ilog2 x) / 2 powi 52"
      by (rule power_int_diff) simp
    then show ?thesis by (simp add: s_def)
  qed
  also have "\<dots> \<le> \<bar>x\<bar> / 2 ^ 53"
    using ilog2_le [OF False] by (simp add: divide_right_mono)
  finally show ?thesis .
qed

lemma f64_bounds:
  assumes "0 \<le> x"
  shows "x * (1 - u53) \<le> f64 x" and "f64 x \<le> x * (1 + u53)"
proof -
  have "\<bar>f64 x - x\<bar> \<le> x * u53" using f64_err [of x] assms by (simp add: u53_def)
  then have "f64 x - x \<le> x * u53" "x - f64 x \<le> x * u53" by linarith+
  then show "x * (1 - u53) \<le> f64 x" and "f64 x \<le> x * (1 + u53)"
    by (simp_all add: algebra_simps)
qed

lemma f64_abs:
  shows "\<bar>x\<bar> * (1 - u53) \<le> \<bar>f64 x\<bar>" and "\<bar>f64 x\<bar> \<le> \<bar>x\<bar> * (1 + u53)"
proof -
  have e: "\<bar>f64 x - x\<bar> \<le> \<bar>x\<bar> * u53" using f64_err [of x] by (simp add: u53_def)
  have "\<bar>x\<bar> - \<bar>f64 x - x\<bar> \<le> \<bar>f64 x\<bar>" by linarith
  then show "\<bar>x\<bar> * (1 - u53) \<le> \<bar>f64 x\<bar>" using e by (simp add: algebra_simps)
  have "\<bar>f64 x\<bar> \<le> \<bar>x\<bar> + \<bar>f64 x - x\<bar>" by linarith
  then show "\<bar>f64 x\<bar> \<le> \<bar>x\<bar> * (1 + u53)" using e by (simp add: algebra_simps)
qed

lemma u53_range: "0 < u53" "u53 < 1"
  by (simp_all add: u53_def)

lemma f64_lower: "0 \<le> L \<Longrightarrow> L \<le> x \<Longrightarrow> L * (1 - u53) \<le> f64 x"
proof -
  assume a: "0 \<le> L" "L \<le> x"
  then have "L * (1 - u53) \<le> x * (1 - u53)" using u53_range by (simp add: mult_right_mono)
  also have "\<dots> \<le> f64 x" using a by (intro f64_bounds) simp
  finally show ?thesis .
qed

lemma f64_upper: "0 \<le> x \<Longrightarrow> x \<le> U \<Longrightarrow> f64 x \<le> U * (1 + u53)"
proof -
  assume a: "0 \<le> x" "x \<le> U"
  have "f64 x \<le> x * (1 + u53)" using a by (intro f64_bounds)
  also have "\<dots> \<le> U * (1 + u53)" using a u53_range by (simp add: mult_right_mono)
  finally show ?thesis .
qed

lemma f64_nonneg: "0 \<le> x \<Longrightarrow> 0 \<le> f64 x"
  using f64_lower [of 0 x] by simp


text \<open>Integers of at most 53 bits are floating-point numbers.\<close>

lemma round_even_int: "round_even (of_int n) = n"
  by (simp add: round_even_def)

lemma f64_of_int:
  assumes "\<bar>n\<bar> \<le> 2 ^ 53"
  shows "f64 (of_int n) = of_int n"
proof (cases "n = 0")
  case True
  then show ?thesis by (simp add: f64_def)
next
  case False
  define x :: rat where "x = of_int n"
  have x0: "x \<noteq> 0" using False by (simp add: x_def)
  have "\<bar>x\<bar> \<le> 2 ^ 53" using assms unfolding x_def
    by (metis of_int_abs of_int_le_iff of_int_numeral of_int_power)
  then have le: "(2::rat) powi (ilog2 x) \<le> 2 powi 53" using ilog2_le [OF x0] by simp
  have e: "ilog2 x \<le> 53"
  proof (rule power_int_le_imp_le_exp [of "2::rat"])
    show "(1::rat) < 2" by simp
    show "(2::rat) powi ilog2 x \<le> 2 powi 53" by (rule le)
    show "(0::int) \<le> 53" by simp
  qed
  show ?thesis
  proof (cases "ilog2 x = 53")
    case True
    then have "2 ^ 53 \<le> \<bar>x\<bar>" using ilog2_le [OF x0] by simp
    then have ax: "\<bar>x\<bar> = 2 ^ 53" using \<open>\<bar>x\<bar> \<le> 2 ^ 53\<close> by simp
    have "x / 2 = of_int (n div 2)"
    proof -
      have "\<bar>n\<bar> = 2 ^ 53" using ax unfolding x_def
        by (metis of_int_abs of_int_eq_iff of_int_numeral of_int_power)
      then have "even n" by (metis even_abs_add_iff even_add even_numeral even_power zero_less_numeral)
      then show ?thesis unfolding x_def by (auto elim!: evenE)
    qed
    then show ?thesis
      using x0 True by (simp add: f64_def Let_def x_def [symmetric] round_even_int)
  next
    case False
    then have "ilog2 x \<le> 52" using e by simp
    define k where "k = nat (52 - ilog2 x)"
    have u: "(2::rat) powi (ilog2 x - 52) = 1 / 2 ^ k"
      using \<open>ilog2 x \<le> 52\<close>
      by (metis k_def power_int_minus_divide power_int_nonneg_exp diff_ge_0_iff_ge minus_diff_eq)
    have y: "x / (1 / 2 ^ k) = of_int (n * 2 ^ k)" by (simp add: x_def)
    have "f64 x = of_int (round_even (x / (1 / 2 ^ k))) * (1 / 2 ^ k)"
      using x0 by (simp add: f64_def Let_def u)
    also have "\<dots> = of_int (n * 2 ^ k) * (1 / 2 ^ k)" by (simp only: y round_even_int)
    also have "\<dots> = x" by (simp add: x_def)
    finally show ?thesis by (simp add: x_def)
  qed
qed

section \<open>The rate limiter: arithmetic and invariant\<close>

lemma capacity_of_ge1: "1 \<le> capacity_of cfg"
  by (simp add: capacity_of_def Let_def)

lemma wrap64_id: "int64_min \<le> x \<Longrightarrow> x \<le> int64_max \<Longrightarrow> wrap64 x = x"
  by (simp add: wrap64_def int64_min_def int64_max_def)

lemma trunc_div_nonneg: "0 \<le> a \<Longrightarrow> 0 < b \<Longrightarrow> trunc_div a b = a div b"
  by (cases "a = 0") (simp_all add: trunc_div_def)

lemma time_Sub_exact:
  "0 \<le> u \<Longrightarrow> u \<le> t \<Longrightarrow> t \<le> int64_max \<Longrightarrow> time_Sub t u = t - u"
  by (simp add: time_Sub_def Let_def int64_min_def int64_max_def)

text \<open>The floor of the specification is the integer division of HOL.\<close>

lemma refill_spec_div: "refill_spec e r = (e * r) div Minute"
proof -
  have "(real_of_int e / real_of_int Minute) * real_of_int r
      = real_of_int (e * r) / real_of_int Minute"
    by simp
  then show ?thesis
    unfolding refill_spec_def by (simp only: floor_divide_of_int_eq)
qed

lemma trunc_mod_nonneg: "0 \<le> a \<Longrightarrow> 0 < b \<Longrightarrow> trunc_mod a b = a mod b"
  by (simp add: trunc_mod_def trunc_div_nonneg minus_div_mult_eq_mod)

text \<open>The duration in minutes, exactly.\<close>

lemma minutes_split:
  "of_int (d div Minute) + of_int (d mod Minute) / 60000000000 = (of_int d :: rat) / of_int Minute"
proof -
  have "d = (d div Minute) * Minute + d mod Minute" by simp
  then have "(of_int d :: rat) = of_int (d div Minute) * of_int Minute + of_int (d mod Minute)"
    by (metis of_int_add of_int_mult)
  then show ?thesis by (simp add: Minute_def field_simps)
qed

lemma Minutes_bounds:
  assumes "0 \<le> d"
  shows "of_int d / of_int Minute * (1 - u53) ^ 3 \<le> Minutes d"
    and "Minutes d \<le> of_int d / of_int Minute * (1 + u53) ^ 3"
proof -
  define lo where "lo = 1 - u53"
  define hi where "hi = 1 + u53"
  have lo: "0 < lo" "lo \<le> 1" and hi: "1 \<le> hi" using u53_range by (simp_all add: lo_def hi_def)
  define mn :: rat where "mn = of_int (d div Minute)"
  define ns :: rat where "ns = of_int (d mod Minute)"
  have mn: "0 \<le> mn" using assms by (simp add: mn_def Minute_def pos_imp_zdiv_nonneg_iff)
  have ns: "0 \<le> ns" by (simp add: ns_def Minute_def)
  have M: "mn + ns / 60000000000 = of_int d / of_int Minute"
    unfolding mn_def ns_def by (rule minutes_split)
  have m: "Minutes d = f64 (f64 mn + f64 (f64 ns / 60000000000))"
    using assms by (simp add: Minutes_def Let_def trunc_div_nonneg trunc_mod_nonneg Minute_def mn_def ns_def)
  have a1: "mn * lo \<le> f64 mn" unfolding lo_def using mn by (intro f64_lower) simp_all
  have b1: "ns * lo \<le> f64 ns" unfolding lo_def using ns by (intro f64_lower) simp_all
  have b2: "ns * lo / 60000000000 \<le> f64 ns / 60000000000" using b1 by (simp add: divide_right_mono)
  have b3: "ns * lo / 60000000000 * lo \<le> f64 (f64 ns / 60000000000)"
    unfolding lo_def [symmetric] using b2 ns lo unfolding lo_def by (intro f64_lower) simp_all
  have "mn * lo * lo \<le> mn * lo" using mn lo by (simp add: mult_left_le)
  then have s1: "(mn + ns / 60000000000) * lo * lo \<le> f64 mn + f64 (f64 ns / 60000000000)"
    using a1 b3 by (simp add: algebra_simps)
  have s0: "0 \<le> (mn + ns / 60000000000) * lo * lo" using mn ns lo by simp
  have "(mn + ns / 60000000000) * lo * lo * lo \<le> Minutes d"
    unfolding m using s0 s1 unfolding lo_def by (intro f64_lower)
  then have "of_int d / of_int Minute * lo ^ 3 \<le> Minutes d"
    by (simp only: M power3_eq_cube mult.assoc)
  then show "of_int d / of_int Minute * (1 - u53) ^ 3 \<le> Minutes d"
    unfolding lo_def .
  have c1: "f64 mn \<le> mn * hi" unfolding hi_def using mn by (intro f64_upper) simp_all
  have d1: "f64 ns \<le> ns * hi" unfolding hi_def using ns by (intro f64_upper) simp_all
  have d2: "f64 ns / 60000000000 \<le> ns * hi / 60000000000" using d1 by (simp add: divide_right_mono)
  have d0: "0 \<le> f64 ns / 60000000000" using f64_nonneg [OF ns] by simp
  have d3: "f64 (f64 ns / 60000000000) \<le> ns * hi / 60000000000 * hi"
    using d0 d2 unfolding hi_def by (intro f64_upper)
  have "0 \<le> mn * hi" using mn hi by simp
  then have "mn * hi * 1 \<le> mn * hi * hi" using hi by (intro mult_left_mono)
  then have "mn * hi \<le> mn * hi * hi" by simp
  then have t1: "f64 mn + f64 (f64 ns / 60000000000) \<le> (mn + ns / 60000000000) * hi * hi"
    using c1 d3 by (simp add: algebra_simps)
  have t0: "0 \<le> f64 mn + f64 (f64 ns / 60000000000)"
    using f64_nonneg [OF mn] f64_nonneg [OF d0] by simp
  have "Minutes d \<le> (mn + ns / 60000000000) * hi * hi * hi"
    unfolding m using t0 t1 unfolding hi_def by (intro f64_upper)
  then have "Minutes d \<le> of_int d / of_int Minute * hi ^ 3"
    by (simp only: M power3_eq_cube mult.assoc)
  then show "Minutes d \<le> of_int d / of_int Minute * (1 + u53) ^ 3"
    unfolding hi_def .
qed

lemma u53_pow5: "1 - eps50 \<le> (1 - u53) ^ 5" "(1 + u53) ^ 5 \<le> 1 + eps50"
  by (simp_all add: u53_def eps50_def power_divide)

text \<open>The product before the conversion, against the exact product.\<close>

lemma product_bounds:
  assumes "0 \<le> d" "0 \<le> r"
  shows "of_int (d * r) / of_int Minute * (1 - eps50) \<le> f64 (Minutes d * f64 (of_int r))"
    and "f64 (Minutes d * f64 (of_int r)) \<le> of_int (d * r) / of_int Minute * (1 + eps50)"
proof -
  define lo where "lo = 1 - u53"
  define hi where "hi = 1 + u53"
  have lo: "0 < lo" "lo \<le> 1" and hi: "1 \<le> hi" using u53_range by (simp_all add: lo_def hi_def)
  define M :: rat where "M = of_int d / of_int Minute"
  define R :: rat where "R = of_int r"
  have M: "0 \<le> M" using assms by (simp add: M_def Minute_def)
  have R: "0 \<le> R" using assms by (simp add: R_def)
  have P: "of_int (d * r) / of_int Minute = M * R" by (simp add: M_def R_def)
  have P0: "0 \<le> M * R" using M R by simp
  have m: "M * lo ^ 3 \<le> Minutes d" "Minutes d \<le> M * hi ^ 3"
    unfolding M_def lo_def hi_def using Minutes_bounds [OF assms(1)] by simp_all
  have "0 \<le> M * lo ^ 3" using M lo by simp
  then have m0: "0 \<le> Minutes d" using m(1) by linarith
  have r: "R * lo \<le> f64 R" "f64 R \<le> R * hi"
    unfolding lo_def hi_def using f64_bounds [OF R] by simp_all
  have r0: "0 \<le> f64 R" using R by (rule f64_nonneg)
  have "(M * lo ^ 3) * (R * lo) \<le> Minutes d * f64 R"
    using m(1) r(1) m0 M R lo by (intro mult_mono) simp_all
  moreover have "0 \<le> (M * lo ^ 3) * (R * lo)" using M R lo by simp
  ultimately have "(M * lo ^ 3) * (R * lo) * lo \<le> f64 (Minutes d * f64 R)"
    unfolding lo_def by (intro f64_lower)
  moreover have "(M * lo ^ 3) * (R * lo) * lo = (M * R) * lo ^ 5"
    by (simp add: power_numeral_reduce algebra_simps)
  ultimately have l: "(M * R) * lo ^ 5 \<le> f64 (Minutes d * f64 R)" by simp
  have "(M * R) * (1 - eps50) \<le> (M * R) * lo ^ 5"
    using P0 u53_pow5(1) unfolding lo_def by (intro mult_left_mono)
  then show "of_int (d * r) / of_int Minute * (1 - eps50) \<le> f64 (Minutes d * f64 (of_int r))"
    using l unfolding P R_def by simp
  have "Minutes d * f64 R \<le> (M * hi ^ 3) * (R * hi)"
    using m(2) r(2) m0 r0 M R hi by (intro mult_mono) simp_all
  moreover have "0 \<le> Minutes d * f64 R" using m0 r0 by simp
  ultimately have "f64 (Minutes d * f64 R) \<le> (M * hi ^ 3) * (R * hi) * hi"
    unfolding hi_def by (intro f64_upper)
  moreover have "(M * hi ^ 3) * (R * hi) * hi = (M * R) * hi ^ 5"
    by (simp add: power_numeral_reduce algebra_simps)
  ultimately have h: "f64 (Minutes d * f64 R) \<le> (M * R) * hi ^ 5" by simp
  have "(M * R) * hi ^ 5 \<le> (M * R) * (1 + eps50)"
    using P0 u53_pow5(2) unfolding hi_def by (intro mult_left_mono)
  then show "f64 (Minutes d * f64 (of_int r)) \<le> of_int (d * r) / of_int Minute * (1 + eps50)"
    using h unfolding P R_def by simp
qed

lemma refill_bounds:
  assumes r: "0 \<le> r" "r \<le> 1000000" and d: "0 \<le> d" "d \<le> int64_max"
  shows "0 \<le> tokensToAdd oor d r"
    and "(d * r) div Minute - 1 \<le> tokensToAdd oor d r"
    and "tokensToAdd oor d r \<le> (d * r) div Minute + 1"
    and "tokensToAdd oor d r \<le> 281474976710656"
    and "d * r < 2 ^ 50 \<Longrightarrow> tokensToAdd oor d r \<le> (d * r) div Minute"
proof -
  define N where "N = d * r"
  define P :: rat where "P = of_int N / of_int Minute"
  define p where "p = f64 (Minutes d * f64 (of_int r))"
  have N0: "0 \<le> N" using r d by (simp add: N_def)
  have "d * r \<le> int64_max * r" using d r by (intro mult_right_mono)
  also have "\<dots> \<le> int64_max * 1000000" using r by (intro mult_left_mono) (simp_all add: int64_max_def)
  finally have N1: "N \<le> 9223372036854775807000000" by (simp add: N_def int64_max_def)
  have P0: "0 \<le> P" using N0 by (simp add: P_def Minute_def)
  have fl: "\<lfloor>P\<rfloor> = N div Minute" unfolding P_def by (rule floor_divide_of_int_eq)
  have "(of_int N :: rat) \<le> of_int 9223372036854775807000000" using N1 by (simp only: of_int_le_iff)
  then have "P * eps50 \<le> 1" by (simp add: P_def eps50_def Minute_def field_simps)
  then have e: "P - 1 \<le> P * (1 - eps50)" "P * (1 + eps50) \<le> P + 1" by (simp_all add: algebra_simps)
  have b: "P * (1 - eps50) \<le> p" "p \<le> P * (1 + eps50)"
    unfolding P_def p_def N_def using product_bounds [OF d(1) r(1)] by simp_all
  have "0 \<le> P * (1 - eps50)" using P0 by (simp add: eps50_def)
  then have p0: "0 \<le> p" using b(1) by linarith
  have lo: "\<lfloor>P\<rfloor> - 1 \<le> \<lfloor>p\<rfloor>"
  proof -
    have "P - 1 \<le> p" using e(1) b(1) by linarith
    then have "\<lfloor>P - 1\<rfloor> \<le> \<lfloor>p\<rfloor>" by (rule floor_mono)
    then show ?thesis by simp
  qed
  have hi: "\<lfloor>p\<rfloor> \<le> \<lfloor>P\<rfloor> + 1"
  proof -
    have "p \<le> P + 1" using e(2) b(2) by linarith
    then have "\<lfloor>p\<rfloor> \<le> \<lfloor>P + 1\<rfloor>" by (rule floor_mono)
    then show ?thesis by simp
  qed
  have "N div Minute \<le> 9223372036854775807000000 div Minute"
    using N1 by (intro zdiv_mono1) (simp_all add: Minute_def)
  then have big: "\<lfloor>P\<rfloor> + 1 \<le> 281474976710656" by (simp add: fl Minute_def)
  have f0: "0 \<le> \<lfloor>p\<rfloor>" using p0 by simp
  have tr: "int_of_float p = \<lfloor>p\<rfloor>" using p0 by (simp add: int_of_float_def)
  have "int64_min \<le> \<lfloor>p\<rfloor>" "\<lfloor>p\<rfloor> \<le> int64_max"
    using f0 hi big unfolding int64_min_def int64_max_def by linarith+
  then have t: "tokensToAdd oor d r = \<lfloor>p\<rfloor>"
    unfolding tokensToAdd_def Let_def p_def [symmetric] tr by simp
  have fl': "(d * r) div Minute = \<lfloor>P\<rfloor>" by (simp add: fl N_def)
  show "0 \<le> tokensToAdd oor d r" unfolding t by (rule f0)
  show "(d * r) div Minute - 1 \<le> tokensToAdd oor d r" unfolding t fl' by (rule lo)
  show "tokensToAdd oor d r \<le> (d * r) div Minute + 1" unfolding t fl' by (rule hi)
  show "tokensToAdd oor d r \<le> 281474976710656" unfolding t using hi big by linarith
  show "tokensToAdd oor d r \<le> (d * r) div Minute" if "d * r < 2 ^ 50"
  proof -
    have N2: "N < 1125899906842624" using that by (simp add: N_def)
    then have "(of_int N :: rat) < of_int 1125899906842624" by (simp only: of_int_less_iff)
    then have s: "P * eps50 < 1 / of_int Minute" by (simp add: P_def eps50_def Minute_def field_simps)
    have "N = (N div Minute) * Minute + N mod Minute" by simp
    moreover have "N mod Minute \<le> Minute - 1" by (simp add: Minute_def)
    ultimately have "N \<le> (N div Minute) * Minute + (Minute - 1)" by linarith
    then have "(of_int N :: rat) \<le> of_int ((N div Minute) * Minute + (Minute - 1))"
      by (simp only: of_int_le_iff)
    then have "P \<le> of_int (N div Minute) + 1 - 1 / of_int Minute"
      by (simp add: P_def Minute_def field_simps)
    then have "p < of_int (N div Minute) + 1" using s b(2) by (simp add: algebra_simps)
    then have "p < of_int (N div Minute + 1)" by simp
    then have "\<lfloor>p\<rfloor> < N div Minute + 1" by (simp only: floor_less_iff)
    then show ?thesis unfolding t fl' fl by linarith
  qed
qed

lemma tokensToAdd_zero: "tokensToAdd oor 0 r = 0"
  by (simp add: tokensToAdd_def Minutes_def trunc_div_def trunc_mod_def f64_def int_of_float_def
      Let_def int64_min_def int64_max_def)

lemma refill_whole_minutes:
  assumes "0 \<le> k" "k * Minute \<le> int64_max" "0 \<le> r" "r \<le> 1000000"
  shows "tokensToAdd oor (k * Minute) r = k * r"
proof -
  have k: "k \<le> 153722867" using assms(2) by (simp add: Minute_def int64_max_def)
  have m: "Minutes (k * Minute) = of_int k"
  proof -
    have "trunc_div (k * Minute) Minute = k" "trunc_mod (k * Minute) Minute = 0"
      using assms(1) by (simp_all add: trunc_div_nonneg trunc_mod_nonneg Minute_def)
    moreover have "f64 (of_int k) = of_int k" using assms(1) k by (intro f64_of_int) simp
    moreover have "f64 0 = 0" by (simp add: f64_def)
    ultimately show ?thesis by (simp add: Minutes_def Let_def)
  qed
  have r: "f64 (of_int r) = of_int r" using assms(3,4) by (intro f64_of_int) simp
  have "k * r \<le> 153722867 * 1000000"
    using k assms by (intro mult_mono) simp_all
  then have kr: "k * r \<le> 153722867000000" by simp
  have kr0: "0 \<le> k * r" using assms by simp
  have "f64 (of_int (k * r)) = of_int (k * r)" using kr kr0 by (intro f64_of_int) simp
  then have p: "f64 (Minutes (k * Minute) * f64 (of_int r)) = of_int (k * r)"
    by (simp add: m r)
  have t: "int_of_float (of_int (k * r)) = k * r"
    using kr0 unfolding int_of_float_def by (simp only: of_int_0_le_iff if_True floor_of_int)
  show ?thesis
    unfolding tokensToAdd_def p Let_def t using kr kr0
    by (simp add: int64_min_def int64_max_def)
qed

text \<open>For the elapsed times of a monotonic clock and every rate, the numbers that are
  rounded are in the range of the normal floating-point numbers, or zero.\<close>

lemma Minutes_rounded:
  "Minutes d = f64 (rounded d r ! 3)"
  and "tokensToAdd oor d r =
         (let q = int_of_float (f64 (rounded d r ! 5))
          in if int64_min \<le> q \<and> q \<le> int64_max then q else wrap64 (oor q))"
  by (simp_all add: Minutes_def tokensToAdd_def rounded_def Let_def)

lemma rounded_normal:
  assumes d: "0 \<le> d" "d \<le> int64_max" and r: "int64_min \<le> r" "r \<le> int64_max"
  shows "list_all normal_or_zero (rounded d r)"
proof -
  define mn where "mn = d div Minute"
  define ns where "ns = d mod Minute"
  have "d div Minute \<le> int64_max div Minute"
    using d(2) by (intro zdiv_mono1) (simp_all add: Minute_def)
  then have mn: "0 \<le> mn" "mn \<le> 153722867"
    using d(1) unfolding mn_def by (simp_all add: Minute_def int64_max_def pos_imp_zdiv_nonneg_iff)
  have ns: "0 \<le> ns" "ns \<le> 59999999999" unfolding ns_def by (simp_all add: Minute_def)
  have td: "trunc_div d Minute = mn" "trunc_mod d Minute = ns"
    using d(1) by (simp_all add: trunc_div_nonneg trunc_mod_nonneg Minute_def mn_def ns_def)
  have fmn: "f64 (of_int mn) = of_int mn" using mn by (intro f64_of_int) simp
  have fns: "f64 (of_int ns) = of_int ns" using ns by (intro f64_of_int) simp
  define q :: rat where "q = of_int ns / 60000000000"
  define s :: rat where "s = of_int mn + f64 q"
  have R: "rounded d r = [of_int mn, of_int ns, q, s, of_int r, f64 s * f64 (of_int r)]"
    by (simp add: rounded_def Let_def td fns fmn q_def s_def)
  have lo: "(1::rat) / 2 ^ 36 \<le> (1 - u53) ^ 3 / 60000000000" by (simp add: u53_def power_divide)
  have u: "0 < 1 - u53" "1 - u53 \<le> 1" "1 + u53 \<le> 2" by (simp_all add: u53_def)
  have n1: "normal_or_zero (of_int mn)"
  proof (cases "mn = 0")
    case True then show ?thesis by (simp add: normal_or_zero_def)
  next
    case False
    then have "1 \<le> mn" using mn by simp
    then have "(1::rat) \<le> of_int mn" "(of_int mn :: rat) \<le> 153722867"
      using mn by simp_all
    then show ?thesis by (simp add: normal_or_zero_def)
  qed
  have n2: "normal_or_zero (of_int ns)"
  proof (cases "ns = 0")
    case True then show ?thesis by (simp add: normal_or_zero_def)
  next
    case False
    then have "1 \<le> ns" using ns by simp
    then have "(1::rat) \<le> of_int ns" "(of_int ns :: rat) \<le> 59999999999"
      using ns by simp_all
    then show ?thesis by (simp add: normal_or_zero_def)
  qed
  have n5: "normal_or_zero (of_int r)"
  proof (cases "r = 0")
    case True then show ?thesis by (simp add: normal_or_zero_def)
  next
    case False
    then have "1 \<le> \<bar>r\<bar>" "\<bar>r\<bar> \<le> 9223372036854775808"
      using r unfolding int64_min_def int64_max_def by linarith+
    then have "(1::rat) \<le> \<bar>of_int r\<bar>" "\<bar>of_int r :: rat\<bar> \<le> 9223372036854775808"
      by (metis of_int_abs of_int_1 of_int_le_iff, metis of_int_abs of_int_numeral of_int_le_iff)
    then show ?thesis by (simp add: normal_or_zero_def)
  qed
  have q0: "0 \<le> q" "q \<le> 1" using ns by (simp_all add: q_def)
  have qpos: "1 / 60000000000 \<le> q" if "ns \<noteq> 0"
  proof -
    have "1 \<le> ns" using that ns by simp
    then have "(1::rat) \<le> of_int ns" by simp
    then show ?thesis by (simp add: q_def)
  qed
  have n3: "normal_or_zero q"
  proof (cases "ns = 0")
    case True then show ?thesis by (simp add: normal_or_zero_def q_def)
  next
    case False
    then show ?thesis using qpos q0 by (simp add: normal_or_zero_def)
  qed
  have fq: "q * (1 - u53) \<le> f64 q" "f64 q \<le> q * (1 + u53)" "0 \<le> f64 q"
    using f64_bounds [OF q0(1)] f64_nonneg [OF q0(1)] by simp_all
  have fq2: "f64 q \<le> 2"
  proof -
    have "q * (1 + u53) \<le> 1 * 2" using q0 u by (intro mult_mono) simp_all
    then show ?thesis using fq(2) by simp
  qed
  have s0: "0 \<le> s" "s \<le> 153722869" using mn fq(3) fq2 by (simp_all add: s_def)
  have spos: "(1 - u53) / 60000000000 \<le> s" if "s \<noteq> 0"
  proof (cases "mn = 0")
    case False
    then have "1 \<le> mn" using mn by simp
    then have "(1::rat) \<le> of_int mn" by simp
    then have "1 \<le> s" using fq(3) by (simp add: s_def)
    moreover have "(1 - u53) / 60000000000 \<le> 1" by (simp add: u53_def)
    ultimately show ?thesis by linarith
  next
    case True
    then have sq: "s = f64 q" by (simp add: s_def)
    then have "ns \<noteq> 0" using that by (auto simp: q_def f64_def)
    then have "1 / 60000000000 * (1 - u53) \<le> q * (1 - u53)"
      using qpos u by (intro mult_right_mono) simp_all
    then show ?thesis using fq(1) sq by simp
  qed
  have n4: "normal_or_zero s"
  proof (cases "s = 0")
    case True then show ?thesis by (simp add: normal_or_zero_def)
  next
    case False
    have "(1 - u53) ^ 3 / 60000000000 \<le> (1 - u53) / 60000000000"
      by (simp add: u53_def power_divide)
    then have "1 / 2 ^ 36 \<le> s" using spos [OF False] lo by linarith
    then show ?thesis using s0 by (simp add: normal_or_zero_def)
  qed
  define R :: rat where "R = of_int r"
  have fs: "s * (1 - u53) \<le> f64 s" "f64 s \<le> s * (1 + u53)" "0 \<le> f64 s"
    using f64_bounds [OF s0(1)] f64_nonneg [OF s0(1)] by simp_all
  have fr: "\<bar>R\<bar> * (1 - u53) \<le> \<bar>f64 R\<bar>" "\<bar>f64 R\<bar> \<le> \<bar>R\<bar> * (1 + u53)"
    by (rule f64_abs)+
  have n6: "normal_or_zero (f64 s * f64 R)"
  proof (cases "s = 0 \<or> r = 0")
    case True
    then show ?thesis by (auto simp: normal_or_zero_def f64_def R_def)
  next
    case False
    then have "r \<noteq> 0" by simp
    then have "1 \<le> \<bar>r\<bar>" "\<bar>r\<bar> \<le> 9223372036854775808"
      using r unfolding int64_min_def int64_max_def by linarith+
    then have Rb: "1 \<le> \<bar>R\<bar>" "\<bar>R\<bar> \<le> 9223372036854775808"
      unfolding R_def
      by (metis of_int_abs of_int_1 of_int_le_iff, metis of_int_abs of_int_numeral of_int_le_iff)
    have a: "\<bar>f64 s * f64 R\<bar> = f64 s * \<bar>f64 R\<bar>" using fs(3) by (simp add: abs_mult)
    have l1: "(1 - u53) / 60000000000 * (1 - u53) \<le> f64 s"
    proof -
      have "(1 - u53) / 60000000000 * (1 - u53) \<le> s * (1 - u53)"
        using spos False u by (intro mult_right_mono) simp_all
      then show ?thesis using fs(1) by linarith
    qed
    have l2: "1 * (1 - u53) \<le> \<bar>f64 R\<bar>"
    proof -
      have "1 * (1 - u53) \<le> \<bar>R\<bar> * (1 - u53)" using Rb u by (intro mult_right_mono) simp_all
      then show ?thesis using fr(1) by linarith
    qed
    have "((1 - u53) / 60000000000 * (1 - u53)) * (1 * (1 - u53)) \<le> f64 s * \<bar>f64 R\<bar>"
      using l1 l2 u fs(3) by (intro mult_mono) simp_all
    moreover have "((1 - u53) / 60000000000 * (1 - u53)) * (1 * (1 - u53))
        = (1 - u53) ^ 3 / 60000000000"
      by (simp add: power3_eq_cube)
    ultimately have low: "1 / 2 ^ 36 \<le> f64 s * \<bar>f64 R\<bar>" using lo by linarith
    have h1: "f64 s \<le> 153722870"
    proof -
      have "s * (1 + u53) \<le> 153722869 * (1 + u53)"
        using s0 by (intro mult_right_mono) (simp_all add: u53_def)
      moreover have "153722869 * (1 + u53) \<le> 153722870" by (simp add: u53_def)
      ultimately show ?thesis using fs(2) by linarith
    qed
    have h2: "\<bar>f64 R\<bar> \<le> 9223372036854776832"
    proof -
      have "\<bar>R\<bar> * (1 + u53) \<le> 9223372036854775808 * (1 + u53)"
        using Rb by (intro mult_right_mono) (simp_all add: u53_def)
      moreover have "9223372036854775808 * (1 + u53) \<le> 9223372036854776832"
        by (simp add: u53_def)
      ultimately show ?thesis using fr(2) by linarith
    qed
    have "f64 s * \<bar>f64 R\<bar> \<le> 153722870 * 9223372036854776832"
      using h1 h2 fs(3) by (intro mult_mono) simp_all
    then have "f64 s * \<bar>f64 R\<bar> \<le> 2 ^ 91" by simp
    then show ?thesis using low a by (simp add: normal_or_zero_def)
  qed
  show ?thesis unfolding R using n1 n2 n3 n4 n5 n6 by (simp add: R_def)
qed

text \<open>Values of the refill. After 100 seconds at 9 per minute the exact product is 15;
  the code computes \<open>1.6666666666666665 \<times> 9 = 14.999999999999998\<close> and adds 14.\<close>

lemma refill_100s_at_9: "tokensToAdd oor 100000000000 9 = 14"
  by code_simp

lemma refill_2min_at_minus_1: "tokensToAdd oor 120000000000 (- 1) = - 2"
  by code_simp

lemma refill_30s_at_minus_1: "tokensToAdd oor 30000000000 (- 1) = 0"
  by code_simp

lemma refill_large_rate: "tokensToAdd oor 60000000000 9223372036854774784 = 9223372036854774784"
  by code_simp

text \<open>The largest rate is rounded to \<open>2^63\<close>, which no \<open>int\<close> holds.\<close>

lemma refill_out_of_range:
  "tokensToAdd oor 60000000000 9223372036854775807 = wrap64 (oor 9223372036854775808)"
  by code_simp

text \<open>On the states of the invariant the code is the algorithm of the specification with
  the refill of the code: nothing wraps, the clamp of the initial tokens does nothing, and a
  call that is denied finds the tokens at zero.\<close>

lemma allow_exact:
  assumes rpi: "0 \<le> RequestsPerIP cfg" and nov: "no_overflow cfg"
    and inv: "vs_inv cfg now vs" and now: "now \<le> int64_max"
  shows "allow oor cfg now ip vs = allow_by (tokensToAdd oor) cfg now ip vs"
proof (cases "vs ip")
  case None
  then show ?thesis
    using capacity_of_ge1 [of cfg] by (simp add: allow_def allow_by_def Let_def)
next
  case (Some v)
  from inv Some have v: "0 \<le> tokens v" "tokens v \<le> capacity_of cfg"
      "0 \<le> lastSeen v" "lastSeen v \<le> now"
    by (auto simp: vs_inv_def)
  let ?e = "now - lastSeen v"
  have e: "time_Sub now (lastSeen v) = ?e" using v now by (simp add: time_Sub_exact)
  have eb: "0 \<le> ?e" "?e \<le> int64_max" using v now by simp_all
  have r1: "RequestsPerIP cfg \<le> 1000000" and c1: "capacity_of cfg \<le> 4611686018427387904"
    using nov by (simp_all add: no_overflow_def)
  let ?q = "tokensToAdd oor ?e (RequestsPerIP cfg)"
  have q: "0 \<le> ?q" "?q \<le> 281474976710656"
    using refill_bounds(1,4) [OF rpi r1 eb] by simp_all
  have "tokens v + ?q \<le> int64_max" using q(2) v(2) c1 by (simp add: int64_max_def)
  moreover have "int64_min \<le> tokens v + ?q" using q(1) v(1) by (simp add: int64_min_def)
  ultimately have w: "wrap64 (tokens v + ?q) = tokens v + ?q" by (rule wrap64_id [rotated])
  have nn: "0 \<le> tokens v + ?q" using q(1) v(1) by simp
  show ?thesis
    using Some e w nn capacity_of_ge1 [of cfg]
    by (auto simp add: allow_def allow_by_def Let_def min_def)
qed

lemma vs_inv_mono: "vs_inv cfg t vs \<Longrightarrow> t \<le> now \<Longrightarrow> vs_inv cfg now vs"
  by (fastforce simp: vs_inv_def)

lemma allow_by_inv:
  assumes "vs_inv cfg now vs" "0 \<le> now"
  shows "vs_inv cfg now (snd (allow_by rule cfg now ip vs))"
  using assms capacity_of_ge1 [of cfg]
  by (auto simp: vs_inv_def allow_by_def Let_def min_def split: option.splits if_splits)

lemma cleanup_inv: "vs_inv cfg now vs \<Longrightarrow> vs_inv cfg now (cleanupVisitors now vs)"
  by (auto simp: vs_inv_def cleanupVisitors_def split: option.splits if_splits)

lemma step_inv:
  assumes "0 \<le> RequestsPerIP cfg" "no_overflow cfg" "vs_inv cfg (event_time e) vs"
    "0 \<le> event_time e" "event_time e \<le> int64_max"
  shows "vs_inv cfg (event_time e) (step oor cfg vs e)"
proof (cases e)
  case (Allow now ip)
  then show ?thesis
    using assms allow_exact [of cfg now vs oor ip]
      allow_by_inv [of cfg now vs "tokensToAdd oor" ip] by simp
next
  case (Sweep now)
  then show ?thesis using assms by (simp add: cleanup_inv)
qed

lemma clock_ok_snoc:
  "clock_ok (evs @ [e]) \<longleftrightarrow>
     clock_ok evs \<and> (\<forall>x\<in>set evs. event_time x \<le> event_time e)
     \<and> 0 \<le> event_time e \<and> event_time e \<le> int64_max"
  by (auto simp: clock_ok_def sorted_append)

lemma run_snoc: "run oor cfg (evs @ [e]) = step oor cfg (run oor cfg evs) e"
  by (simp add: run_def)

text \<open>With a rate between 0 and a million per minute and a capacity of at most \<open>2^62\<close>,
  every state that a run reaches under the monotonic clock satisfies the invariant of the
  data model.\<close>

lemma run_inv:
  assumes "0 \<le> RequestsPerIP cfg" "no_overflow cfg"
  shows "clock_ok evs \<Longrightarrow> \<forall>x\<in>set evs. event_time x \<le> now \<Longrightarrow> 0 \<le> now
    \<Longrightarrow> vs_inv cfg now (run oor cfg evs)"
proof (induction evs arbitrary: now rule: rev_induct)
  case Nil
  then show ?case by (simp add: run_def vs_inv_def)
next
  case (snoc e evs)
  from snoc.prems(1) have c: "clock_ok evs" "\<forall>x\<in>set evs. event_time x \<le> event_time e"
    "0 \<le> event_time e" "event_time e \<le> int64_max"
    by (simp_all add: clock_ok_snoc)
  have "vs_inv cfg (event_time e) (run oor cfg evs)" using snoc.IH c by blast
  then have "vs_inv cfg (event_time e) (step oor cfg (run oor cfg evs) e)"
    using assms c by (simp add: step_inv)
  moreover have "event_time e \<le> now" using snoc.prems(2) by simp
  ultimately show ?case by (simp add: run_snoc vs_inv_mono)
qed

lemma burst_of_two:
  assumes "capacity_of cfg = 2" "vs ip = None"
  shows "(let (a1, v1) = allow oor cfg now ip vs;
              (a2, v2) = allow oor cfg now ip v1;
              (a3, v3) = allow oor cfg now ip v2
          in a1 \<and> a2 \<and> \<not> a3)"
  using assms
  by (simp add: allow_def Let_def time_Sub_def tokensToAdd_zero wrap64_def
      int64_min_def int64_max_def)

lemma nine_per_minute_no_overflow: "no_overflow nine_per_minute"
  by (simp add: nine_per_minute_def no_overflow_def capacity_of_def)

text \<open>The eviction sweeps leave a visitor in the map until it has been idle for more than
  three minutes.\<close>

lemma sweeps_keep:
  assumes "vs ip = Some v" "\<forall>s\<in>set sweeps. s \<le> lastSeen v + 3 * Minute"
  shows "foldl (step oor cfg) vs (map Sweep sweeps) ip = Some v"
  using assms
proof (induction sweeps arbitrary: vs)
  case Nil
  then show ?case by simp
next
  case (Cons s sweeps)
  have "\<not> time_Sub s (lastSeen v) > 3 * Minute"
    using Cons.prems(2) by (simp add: time_Sub_def Let_def int64_min_def int64_max_def Minute_def)
  then have "cleanupVisitors s vs ip = Some v"
    using Cons.prems(1) by (simp add: cleanupVisitors_def)
  then show ?case using Cons.IH [of "cleanupVisitors s vs"] Cons.prems(2) by simp
qed

text \<open>The states of the examples: twenty calls in the same instant empty a bucket of
  twenty.\<close>

lemma twenty_calls:
  "run oor nine_per_minute (replicate 20 (Allow 0 ''k'')) ''k'' = Some \<lparr>lastSeen = 0, tokens = 0\<rparr>"
  by (simp add: eval_nat_numeral run_def nine_per_minute_def allow_def capacity_of_def Let_def
      time_Sub_def tokensToAdd_zero wrap64_def int64_min_def int64_max_def)

text \<open>Why the refill must not overflow: with a rate of \<open>2^63 - 1024\<close> per minute and a
  burst of 2000, one minute after the first call the sum \<open>1999 + (2^63 - 1024)\<close> wraps to
  a negative number, and the call is denied where the specification allows it.\<close>

lemma refill_wraps_example:
  "fst (allow (\<lambda>q. 0)
          \<lparr>RL_Enabled = True, RequestsPerIP = 9223372036854774784, BurstSize = 2000\<rparr>
          60000000000 ''k''
          (run (\<lambda>q. 0)
             \<lparr>RL_Enabled = True, RequestsPerIP = 9223372036854774784, BurstSize = 2000\<rparr>
             [Allow 0 ''k''])) = False
   \<and> snd (allow (\<lambda>q. 0)
          \<lparr>RL_Enabled = True, RequestsPerIP = 9223372036854774784, BurstSize = 2000\<rparr>
          60000000000 ''k''
          (run (\<lambda>q. 0)
             \<lparr>RL_Enabled = True, RequestsPerIP = 9223372036854774784, BurstSize = 2000\<rparr>
             [Allow 0 ''k''])) ''k''
       = Some \<lparr>lastSeen = 60000000000, tokens = - 9223372036854774833\<rparr>"
  by (simp add: run_def allow_def capacity_of_def Let_def time_Sub_def refill_large_rate
      wrap64_def int64_min_def int64_max_def)

text \<open>What a negative rate does to the refill: the conversion discards the fraction of
  \<open>-0.5\<close>, where the floor of the specification is \<open>-1\<close>.\<close>

lemma negative_refill_example:
  "tokensToAdd oor 30000000000 (RequestsPerIP negative_rate_config) = 0
   \<and> refill_spec 30000000000 (RequestsPerIP negative_rate_config) = - 1"
  by (simp add: negative_rate_config_def refill_30s_at_minus_1 refill_spec_div Minute_def)

section \<open>The rate limiter: the claims\<close>

text \<open>
  Claim C1, amended. For every configuration with a rate between 0 and a million per minute
  and a capacity of at most \<open>2^62\<close>, every client key and every state that a run of the
  limiter reaches under the monotonic clock, \<open>allow\<close> is the algorithm of the
  specification with the refill as the code computes it, in floating point: the first call
  for a key stores \<open>tokens = capacity - 1\<close> and returns true; a later call adds the refill,
  caps the tokens at the capacity, stores the clock reading, and then returns true and takes
  one token if there is one, and returns false with zero tokens otherwise. For every elapsed
  time that a Duration holds, the refill of the code is
  \<open>floor(elapsedMinutes \<times> requestsPerPeriod)\<close> or differs from it by one; it does not
  exceed it when the product of the nanoseconds and the rate is below \<open>2^50\<close> (some 18764
  tokens), and it is equal to it after whole minutes. With capacity 2 and no time elapsed,
  calls 1 and 2 for a fresh key return true and call 3 returns false (this part for any
  rate).
\<close>

theorem allow_refines_spec:
  assumes "0 \<le> RequestsPerIP cfg" and "no_overflow cfg" and "clock_ok (evs @ [Allow now ip])"
    and "0 \<le> e" and "e \<le> int64_max"
  shows "allow oor cfg now ip (run oor cfg evs)
           = allow_by (tokensToAdd oor) cfg now ip (run oor cfg evs)
    \<and> refill_spec e (RequestsPerIP cfg) - 1 \<le> tokensToAdd oor e (RequestsPerIP cfg)
    \<and> tokensToAdd oor e (RequestsPerIP cfg) \<le> refill_spec e (RequestsPerIP cfg) + 1
    \<and> (e * RequestsPerIP cfg < 2 ^ 50 \<longrightarrow>
         tokensToAdd oor e (RequestsPerIP cfg) \<le> refill_spec e (RequestsPerIP cfg))
    \<and> (e mod Minute = 0 \<longrightarrow>
         tokensToAdd oor e (RequestsPerIP cfg) = refill_spec e (RequestsPerIP cfg))
    \<and> (capacity_of cfg = 2 \<longrightarrow> run oor cfg evs ip = None \<longrightarrow>
         (let (a1, v1) = allow oor cfg now ip (run oor cfg evs);
              (a2, v2) = allow oor cfg now ip v1;
              (a3, v3) = allow oor cfg now ip v2
          in a1 \<and> a2 \<and> \<not> a3))"
proof -
  from assms(3) have c: "clock_ok evs" "\<forall>x\<in>set evs. event_time x \<le> now" "0 \<le> now"
      "now \<le> int64_max"
    by (simp_all add: clock_ok_snoc)
  have r1: "RequestsPerIP cfg \<le> 1000000" using assms(2) by (simp add: no_overflow_def)
  have "vs_inv cfg now (run oor cfg evs)" using run_inv [OF assms(1,2)] c by blast
  then have 1: "allow oor cfg now ip (run oor cfg evs)
      = allow_by (tokensToAdd oor) cfg now ip (run oor cfg evs)"
    using assms(1,2) c(4) by (simp add: allow_exact)
  note b = refill_bounds [OF assms(1) r1 assms(4,5), of oor]
  have 2: "refill_spec e (RequestsPerIP cfg) - 1 \<le> tokensToAdd oor e (RequestsPerIP cfg)"
    using b(2) by (simp add: refill_spec_div)
  have 3: "tokensToAdd oor e (RequestsPerIP cfg) \<le> refill_spec e (RequestsPerIP cfg) + 1"
    using b(3) by (simp add: refill_spec_div)
  have 4: "e * RequestsPerIP cfg < 2 ^ 50 \<longrightarrow>
      tokensToAdd oor e (RequestsPerIP cfg) \<le> refill_spec e (RequestsPerIP cfg)"
    using b(5) by (simp add: refill_spec_div)
  have 5: "e mod Minute = 0 \<longrightarrow>
      tokensToAdd oor e (RequestsPerIP cfg) = refill_spec e (RequestsPerIP cfg)"
  proof
    assume m: "e mod Minute = 0"
    define k where "k = e div Minute"
    have e: "e = k * Minute" using m unfolding k_def by (simp add: mod_0_imp_dvd)
    have k: "0 \<le> k" using assms(4) unfolding k_def by (simp add: Minute_def pos_imp_zdiv_nonneg_iff)
    have "tokensToAdd oor (k * Minute) (RequestsPerIP cfg) = k * RequestsPerIP cfg"
      using k assms(5) assms(1) r1 unfolding e by (intro refill_whole_minutes)
    moreover have "refill_spec (k * Minute) (RequestsPerIP cfg) = k * RequestsPerIP cfg"
      by (simp add: refill_spec_div Minute_def)
    ultimately show "tokensToAdd oor e (RequestsPerIP cfg) = refill_spec e (RequestsPerIP cfg)"
      unfolding e by simp
  qed
  show ?thesis
    using 1 2 3 4 5 burst_of_two [of cfg "run oor cfg evs" ip oor now] by blast
qed

theorem allow_refines_spec_witness:
  "0 \<le> RequestsPerIP nine_per_minute \<and> no_overflow nine_per_minute
   \<and> clock_ok (replicate 20 (Allow 0 ''k'') @ [Allow 100000000000 ''k''])
   \<and> (0::int) \<le> 100000000000 \<and> 100000000000 \<le> int64_max
   \<and> allow (\<lambda>q. 0) nine_per_minute 100000000000 ''k''
         (run (\<lambda>q. 0) nine_per_minute (replicate 20 (Allow 0 ''k'')))
     = allow_by (tokensToAdd (\<lambda>q. 0)) nine_per_minute 100000000000 ''k''
         (run (\<lambda>q. 0) nine_per_minute (replicate 20 (Allow 0 ''k'')))
   \<and> refill_spec 100000000000 (RequestsPerIP nine_per_minute) - 1
       \<le> tokensToAdd (\<lambda>q. 0) 100000000000 (RequestsPerIP nine_per_minute)
   \<and> tokensToAdd (\<lambda>q. 0) 100000000000 (RequestsPerIP nine_per_minute)
       \<le> refill_spec 100000000000 (RequestsPerIP nine_per_minute)
   \<and> tokensToAdd (\<lambda>q. 0) 100000000000 (RequestsPerIP nine_per_minute) = 14
   \<and> refill_spec 100000000000 (RequestsPerIP nine_per_minute) = 15
   \<and> tokensToAdd (\<lambda>q. 0) 120000000000 (RequestsPerIP nine_per_minute) = 18
   \<and> refill_spec 120000000000 (RequestsPerIP nine_per_minute) = 18"
proof -
  have h1: "0 \<le> RequestsPerIP nine_per_minute" by (simp add: nine_per_minute_def)
  have h6: "(120000000000::int) \<le> int64_max" by (simp add: int64_max_def)
  have v: "tokensToAdd (\<lambda>q. 0) 100000000000 (RequestsPerIP nine_per_minute) = 14"
    "refill_spec 100000000000 (RequestsPerIP nine_per_minute) = 15"
    "refill_spec 120000000000 (RequestsPerIP nine_per_minute) = 18"
    "120000000000 mod Minute = 0"
    by (simp_all add: nine_per_minute_def refill_100s_at_9 refill_spec_div Minute_def)
  have h3: "clock_ok (replicate 20 (Allow 0 ''k'') @ [Allow 100000000000 ''k''])"
    by (simp add: clock_ok_def int64_max_def sorted_append list_all_iff)
  have h4: "(0::int) \<le> 100000000000" by simp
  have h5: "100000000000 \<le> int64_max" by (simp add: int64_max_def)
  have s: "100000000000 * RequestsPerIP nine_per_minute < 2 ^ 50"
    by (simp add: nine_per_minute_def)
  have w: "tokensToAdd (\<lambda>q. 0) 120000000000 (RequestsPerIP nine_per_minute) = 18"
    using allow_refines_spec [OF h1 nine_per_minute_no_overflow h3 _ h6, of "\<lambda>q. 0"] v(3,4)
    by simp
  show ?thesis
    using h1 h3 h4 h5 s v w nine_per_minute_no_overflow
      allow_refines_spec [OF h1 nine_per_minute_no_overflow h3 h4 h5, of "\<lambda>q. 0"]
    by blast
qed

text \<open>
  Claim C1 as stated fails: at 9 requests per minute and a burst of 20, 100 seconds after
  twenty calls have emptied the bucket the exact product is 15, but the code computes
  \<open>1.6666666666666665 \<times> 9 = 14.999999999999998\<close> and adds 14: it stores 13 tokens where
  the specification stores 14.
\<close>

theorem allow_rounds_counterexample:
  "snd (allow (\<lambda>q. 0) nine_per_minute 100000000000 ''k''
          (run (\<lambda>q. 0) nine_per_minute (replicate 20 (Allow 0 ''k'')))) ''k''
     = Some \<lparr>lastSeen = 100000000000, tokens = 13\<rparr>
   \<and> snd (allow_spec nine_per_minute 100000000000 ''k''
          (run (\<lambda>q. 0) nine_per_minute (replicate 20 (Allow 0 ''k'')))) ''k''
     = Some \<lparr>lastSeen = 100000000000, tokens = 14\<rparr>"
proof -
  have c: "capacity_of nine_per_minute = 20" and r: "RequestsPerIP nine_per_minute = 9"
    by (simp_all add: nine_per_minute_def capacity_of_def)
  have e: "time_Sub 100000000000 0 = 100000000000"
    by (simp add: time_Sub_def Let_def int64_min_def int64_max_def)
  show ?thesis
    by (simp add: twenty_calls allow_def allow_spec_def allow_by_def refill_spec_div c r e
        Let_def refill_100s_at_9 wrap64_def Minute_def)
qed

text \<open>
  Claim C4: the invariant \<open>0 \<le> tokens \<le> capacity\<close> for every configuration, including
  non-positive ones. The code coerces the capacity and clamps the initial tokens, but the
  refill multiplies by the configured rate as it is. With \<open>RequestsPerIP = -1\<close> and
  \<open>BurstSize = 2\<close>, a second call two minutes after the first is denied and leaves
  \<open>tokens = -1\<close>, whatever eviction sweeps run in between: a sweep removes a visitor only
  after more than three idle minutes.
\<close>

theorem tokens_negative_after_refill:
  assumes "\<forall>s\<in>set sweeps. s \<le> t + 3 * Minute"
  shows "capacity_of negative_rate_config = 2
    \<and> \<not> fst (allow oor negative_rate_config (t + 2 * Minute) ip
             (run oor negative_rate_config (Allow t ip # map Sweep sweeps)))
    \<and> run oor negative_rate_config (Allow t ip # map Sweep sweeps @ [Allow (t + 2 * Minute) ip]) ip
        = Some \<lparr>lastSeen = t + 2 * Minute, tokens = - 1\<rparr>"
proof -
  let ?cfg = "negative_rate_config"
  let ?v = "\<lparr>lastSeen = t, tokens = 1\<rparr>"
  let ?S = "run oor ?cfg (Allow t ip # map Sweep sweeps)"
  have c: "capacity_of ?cfg = 2" by (simp add: negative_rate_config_def capacity_of_def)
  have "step oor ?cfg Map.empty (Allow t ip) ip = Some ?v"
    by (simp add: allow_def c Let_def)
  then have S: "?S ip = Some ?v"
    unfolding run_def using assms by (simp add: sweeps_keep)
  have e: "time_Sub (t + 2 * Minute) t = 120000000000"
    by (simp add: time_Sub_def Let_def int64_min_def int64_max_def Minute_def)
  have r: "RequestsPerIP ?cfg = - 1" by (simp add: negative_rate_config_def)
  have a: "allow oor ?cfg (t + 2 * Minute) ip ?S
      = (False, ?S(ip \<mapsto> \<lparr>lastSeen = t + 2 * Minute, tokens = - 1\<rparr>))"
    by (simp add: allow_def S c e r refill_2min_at_minus_1 Let_def wrap64_def)
  have "run oor ?cfg (Allow t ip # map Sweep sweeps @ [Allow (t + 2 * Minute) ip])
      = snd (allow oor ?cfg (t + 2 * Minute) ip ?S)"
    by (simp add: run_def)
  then show ?thesis using c a by simp
qed

theorem tokens_negative_after_refill_witness:
  "60000000000 \<le> 30000000000 + 3 * Minute \<and> 120000000000 \<le> 30000000000 + 3 * Minute
   \<and> clock_ok (Allow 30000000000 ''k'' # map Sweep [60000000000, 120000000000]
                 @ [Allow (30000000000 + 2 * Minute) ''k''])
   \<and> run (\<lambda>q. 0) negative_rate_config
        (Allow 30000000000 ''k'' # map Sweep [60000000000, 120000000000]
           @ [Allow (30000000000 + 2 * Minute) ''k'']) ''k''
      = Some \<lparr>lastSeen = 150000000000, tokens = - 1\<rparr>"
proof -
  have h: "\<forall>s\<in>set [60000000000, 120000000000]. s \<le> 30000000000 + 3 * Minute"
    by (simp add: Minute_def)
  have k: "clock_ok (Allow 30000000000 ''k'' # map Sweep [60000000000, 120000000000]
                 @ [Allow (30000000000 + 2 * Minute) ''k''])"
    by (simp add: clock_ok_def int64_max_def Minute_def)
  have m: "30000000000 + 2 * Minute = 150000000000" by (simp add: Minute_def)
  have b: "60000000000 \<le> 30000000000 + 3 * Minute" "120000000000 \<le> 30000000000 + 3 * Minute"
    by (simp_all add: Minute_def)
  show ?thesis
    using b k tokens_negative_after_refill [OF h, of "\<lambda>q. 0" "''k''"] unfolding m by blast
qed

text \<open>
  Claim C9. For distinct client keys, \<open>allow\<close> on one key leaves the state stored for the
  other unchanged, and neither the decision nor the state that a later call computes for the
  other key depends on whether the first call happened.
\<close>

theorem allow_frame:
  assumes "ip' \<noteq> ip"
  shows "snd (allow oor cfg now ip vs) ip' = vs ip'
    \<and> fst (allow oor cfg now' ip' (snd (allow oor cfg now ip vs)))
        = fst (allow oor cfg now' ip' vs)
    \<and> snd (allow oor cfg now' ip' (snd (allow oor cfg now ip vs))) ip'
        = snd (allow oor cfg now' ip' vs) ip'"
proof -
  have 1: "snd (allow oor cfg now ip vs) ip' = vs ip'"
    using assms by (simp add: allow_def Let_def split: option.splits)
  have 2: "\<And>ws. ws ip' = vs ip' \<Longrightarrow>
      fst (allow oor cfg now' ip' ws) = fst (allow oor cfg now' ip' vs) \<and>
      snd (allow oor cfg now' ip' ws) ip' = snd (allow oor cfg now' ip' vs) ip'"
    by (simp add: allow_def Let_def split: option.splits)
  show ?thesis using 1 2 [of "snd (allow oor cfg now ip vs)"] by simp
qed

theorem allow_frame_witness:
  "''192.168.1.200'' \<noteq> ''192.168.1.100''
   \<and> snd (allow (\<lambda>q. 0) test_config 0 ''192.168.1.100'' Map.empty) ''192.168.1.200'' = None
   \<and> fst (allow (\<lambda>q. 0) test_config 0 ''192.168.1.200''
            (snd (allow (\<lambda>q. 0) test_config 0 ''192.168.1.100'' Map.empty)))"
proof -
  have h: "''192.168.1.200'' \<noteq> ''192.168.1.100''" by simp
  have "fst (allow (\<lambda>q. 0) test_config 0 ''192.168.1.200'' Map.empty)"
    by (simp add: allow_def Let_def)
  then show ?thesis
    using h allow_frame [OF h, of "\<lambda>q. 0" test_config 0 Map.empty 0] by simp
qed

section \<open>Strings and paths\<close>

lemma http_Error_status: "statusCode w = None \<Longrightarrow> statusCode (http_Error w msg code) = Some code"
  by (simp add: http_Error_def Write_def WriteHeader_def Header_Set_def Header_Del_def Let_def)


lemma HasPrefix_iff: "HasPrefix s p \<longleftrightarrow> (\<exists>post. s = p @ post)"
proof
  assume "HasPrefix s p"
  then have "s = p @ drop (length p) s"
    unfolding HasPrefix_def by (metis append_take_drop_id)
  then show "\<exists>post. s = p @ post" ..
next
  assume "\<exists>post. s = p @ post"
  then show "HasPrefix s p" by (auto simp: HasPrefix_def)
qed

lemma Contains_iff: "Contains s sub \<longleftrightarrow> (\<exists>pre post. s = pre @ sub @ post)"
proof (induction s)
  case Nil
  then show ?case by auto
next
  case (Cons c s)
  have "(\<exists>pre post. c # s = pre @ sub @ post)
      \<longleftrightarrow> (\<exists>post. c # s = sub @ post) \<or> (\<exists>pre post. s = pre @ sub @ post)"
    (is "?L \<longleftrightarrow> ?A \<or> ?B")
  proof
    assume ?L
    then obtain pre post where e: "c # s = pre @ sub @ post" by blast
    show "?A \<or> ?B"
    proof (cases pre)
      case Nil
      with e show ?thesis by auto
    next
      case (Cons x pre')
      with e have "s = pre' @ sub @ post" by simp
      then show ?thesis by blast
    qed
  next
    assume "?A \<or> ?B"
    then show ?L
    proof
      assume ?A
      then obtain post where "c # s = [] @ sub @ post" by auto
      then show ?L by blast
    next
      assume ?B
      then obtain pre post where "c # s = (c # pre) @ sub @ post" by auto
      then show ?L by blast
    qed
  qed
  then show ?case using Cons.IH by (simp add: HasPrefix_iff)
qed

lemma Split_not_Nil: "Split s c \<noteq> []"
  by (induction s) auto

lemma Join_Cons: "es \<noteq> [] \<Longrightarrow> Join (e # es) sep = e @ sep @ Join es sep"
  by (cases es) simp_all

lemma Join_Split: "Join (Split s c) [c] = s"
proof (induction s)
  case Nil
  then show ?case by simp
next
  case (Cons x s)
  obtain h t where ht: "Split s c = h # t" using Split_not_Nil [of s c] by (cases "Split s c") auto
  show ?case
  proof (cases "x = c")
    case True
    then show ?thesis using Cons.IH by (simp add: Join_Cons Split_not_Nil)
  next
    case False
    then show ?thesis using Cons.IH ht by (cases t) simp_all
  qed
qed

lemma Join_infix: "e \<in> set xs \<Longrightarrow> \<exists>pre post. Join xs sep = pre @ e @ post"
proof (induction xs)
  case Nil
  then show ?case by simp
next
  case (Cons x xs)
  show ?case
  proof (cases "xs = []")
    case True
    with Cons.prems have "Join (x # xs) sep = [] @ e @ []" by simp
    then show ?thesis by blast
  next
    case False
    then have j: "Join (x # xs) sep = x @ sep @ Join xs sep" by (rule Join_Cons)
    from Cons.prems have "e = x \<or> e \<in> set xs" by auto
    then show ?thesis
    proof
      assume "e = x"
      with j have "Join (x # xs) sep = [] @ e @ (sep @ Join xs sep)" by simp
      then show ?thesis by blast
    next
      assume "e \<in> set xs"
      then obtain pre post where "Join xs sep = pre @ e @ post" using Cons.IH by blast
      with j have "Join (x # xs) sep = (x @ sep @ pre) @ e @ post" by simp
      then show ?thesis by blast
    qed
  qed
qed

lemma Split_infix: "e \<in> set (Split s c) \<Longrightarrow> \<exists>pre post. s = pre @ e @ post"
  using Join_infix [of e "Split s c" "[c]"] by (simp add: Join_Split)

lemma segment_Contains:
  assumes "e \<in> set (Split s c)" "Contains e sub"
  shows "Contains s sub"
proof -
  from assms(1) obtain pre post where s: "s = pre @ e @ post" using Split_infix by blast
  from assms(2) obtain a b where "e = a @ sub @ b" unfolding Contains_iff by blast
  with s have "s = (pre @ a) @ sub @ (b @ post)" by simp
  then show ?thesis unfolding Contains_iff by blast
qed


lemma Split_append: "Split (a @ c # b) c = Split a c @ Split b c"
proof (induction a)
  case Nil
  then show ?case by simp
next
  case (Cons x a)
  then show ?case using Split_not_Nil [of a c] by (cases "Split a c") auto
qed

lemma Split_no_sep: "c \<notin> set s \<Longrightarrow> Split s c = [s]"
  by (induction s) auto

lemma Split_elem_no_sep: "e \<in> set (Split s c) \<Longrightarrow> c \<notin> set e"
proof (induction s arbitrary: e)
  case Nil
  then show ?case by simp
next
  case (Cons x s)
  obtain h t where ht: "Split s c = h # t" using Split_not_Nil [of s c] by (cases "Split s c") auto
  show ?case
  proof (cases "x = c")
    case True
    with Cons show ?thesis by auto
  next
    case False
    with Cons.prems ht have "e = x # h \<or> e \<in> set t" by auto
    then show ?thesis using Cons.IH ht False by auto
  qed
qed

lemma Split_Join:
  "xs \<noteq> [] \<Longrightarrow> \<forall>x\<in>set xs. c \<notin> set x \<Longrightarrow> Split (Join xs [c]) c = xs"
proof (induction xs)
  case Nil
  then show ?case by simp
next
  case (Cons x xs)
  show ?case
  proof (cases "xs = []")
    case True
    with Cons.prems show ?thesis by (simp add: Split_no_sep)
  next
    case False
    then have "Join (x # xs) [c] = x @ c # Join xs [c]" by (simp add: Join_Cons)
    then show ?thesis using Cons False by (simp add: Split_append Split_no_sep)
  qed
qed


section \<open>\<open>filepath.Clean\<close>: the loop and its elements\<close>

declare bt_loop.simps [simp del]

declare clean_loop.simps(2) [simp del]

lemma Join_snoc: "Join (xs @ [e]) sep = (if xs = [] then e else Join xs sep @ sep @ e)"
proof (induction xs)
  case Nil
  then show ?case by simp
next
  case (Cons x xs)
  then show ?case by (cases xs) (simp_all add: Join_Cons)
qed

lemma buffer_of_snoc:
  "buffer_of R (xs @ [e]) = buffer_of R xs @ (if xs = [] then [] else ''/'') @ e"
  by (simp add: buffer_of_def Join_snoc)

lemma Join_Nil_iff: "elements_ok xs \<Longrightarrow> Join xs sep = [] \<longleftrightarrow> xs = []"
  by (cases xs; cases "tl xs") (auto simp: elements_ok_def)

lemma buffer_of_length_cond:
  assumes "elements_ok xs"
  shows "(R \<and> length (buffer_of R xs) \<noteq> 1 \<or> \<not> R \<and> length (buffer_of R xs) \<noteq> 0) \<longleftrightarrow> xs \<noteq> []"
    and "\<not> R \<Longrightarrow> length (buffer_of R xs) > 0 \<longleftrightarrow> xs \<noteq> []"
  using Join_Nil_iff [OF assms, of "''/''"] by (auto simp: buffer_of_def)

lemma buffer_of_take_le: "elements_ok xs \<Longrightarrow> length (buffer_of R (take n xs)) \<le> length (buffer_of R xs)"
proof (induction xs arbitrary: n rule: rev_induct)
  case Nil
  then show ?case by simp
next
  case (snoc e xs)
  have ok: "elements_ok xs" using snoc.prems by (simp add: elements_ok_def)
  show ?case
  proof (cases "n \<le> length xs")
    case True
    then have "length (buffer_of R (take n (xs @ [e]))) \<le> length (buffer_of R xs)"
      using snoc.IH [OF ok, of n] by simp
    then show ?thesis by (simp add: buffer_of_snoc)
  next
    case False
    then show ?thesis by simp
  qed
qed

lemma buffer_of_take_less:
  "elements_ok xs \<Longrightarrow> n < length xs \<Longrightarrow> length (buffer_of R (take n xs)) < length (buffer_of R xs)"
proof (induction xs rule: rev_induct)
  case Nil
  then show ?case by simp
next
  case (snoc e xs)
  have ok: "elements_ok xs" and e: "e \<noteq> []" using snoc.prems by (simp_all add: elements_ok_def)
  have "length (buffer_of R (take n xs)) \<le> length (buffer_of R xs)" using ok by (rule buffer_of_take_le)
  moreover have "take n (xs @ [e]) = take n xs" using snoc.prems(2) by simp
  ultimately show ?case using e by (simp add: buffer_of_snoc)
qed

lemma buffer_of_cond:
  assumes "elements_ok xs" "n \<le> length xs"
  shows "length (buffer_of R xs) > length (buffer_of R (take n xs)) \<longleftrightarrow> length xs > n"
proof (cases "n < length xs")
  case True
  then show ?thesis using buffer_of_take_less [OF assms(1)] by simp
next
  case False
  with assms(2) have "n = length xs" by simp
  then show ?thesis by simp
qed

lemma bt_loop_strip:
  "CHR ''/'' \<notin> set x \<Longrightarrow> removed \<noteq> CHR ''/'' \<Longrightarrow> dd \<le> length P
     \<Longrightarrow> bt_loop (P @ x) removed dd = bt_loop P (if x = [] then removed else hd x) dd"
proof (induction x arbitrary: removed rule: rev_induct)
  case Nil
  then show ?case by simp
next
  case (snoc c y)
  have c: "c \<noteq> CHR ''/''" and y: "CHR ''/'' \<notin> set y" using snoc.prems(1) by auto
  have "bt_loop (P @ y @ [c]) removed dd = bt_loop (P @ y) c dd"
    using snoc.prems(2,3) by (subst bt_loop.simps) (simp add: butlast_append)
  also have "\<dots> = bt_loop P (if y = [] then c else hd y) dd"
    using snoc.IH [OF y c snoc.prems(3)] .
  finally show ?case by (cases y) simp_all
qed

lemma bt_loop_stop: "length out \<le> dd \<or> removed = CHR ''/'' \<Longrightarrow> bt_loop out removed dd = out"
  by (subst bt_loop.simps) auto

lemma backtrack_bytes:
  assumes ok: "elements_ok xs" and n: "n < length xs"
  shows "backtrack (buffer_of R xs) (length (buffer_of R (take n xs))) = buffer_of R (butlast xs)"
proof -
  from n obtain ys x where xs: "xs = ys @ [x]" by (cases xs rule: rev_cases) auto
  have oky: "elements_ok ys" and x: "x \<noteq> []" "CHR ''/'' \<notin> set x" using ok xs by (auto simp: elements_ok_def)
  obtain x' c where xc: "x = x' @ [c]" using x(1) by (cases x rule: rev_cases) auto
  have c: "c \<noteq> CHR ''/''" and x': "CHR ''/'' \<notin> set x'" using x(2) xc by auto
  let ?dd = "length (buffer_of R (take n xs))"
  let ?B = "buffer_of R ys"
  let ?s = "if ys = [] then [] else ''/''"
  have tk: "take n xs = take n ys" using n xs by simp
  have dd: "?dd \<le> length ?B" unfolding tk using oky by (rule buffer_of_take_le)
  have b: "buffer_of R xs = ?B @ ?s @ x' @ [c]" by (simp add: xs buffer_of_snoc xc)
  have "backtrack (buffer_of R xs) ?dd = bt_loop ((?B @ ?s) @ x') c ?dd"
    unfolding backtrack_def b by (simp add: butlast_append)
  also have "\<dots> = bt_loop (?B @ ?s) (if x' = [] then c else hd x') ?dd"
    using x' c dd by (intro bt_loop_strip) auto
  also have "\<dots> = ?B"
  proof (cases "ys = []")
    case True
    then have "?dd = length ?B" by (simp add: tk)
    then show ?thesis using True by (simp add: bt_loop_stop)
  next
    case False
    have r: "(if x' = [] then c else hd x') \<noteq> CHR ''/''"
      using c x' by (cases x') auto
    have "bt_loop (?B @ ''/'') (if x' = [] then c else hd x') ?dd = bt_loop ?B CHR ''/'' ?dd"
      using r dd by (subst bt_loop.simps) simp
    then show ?thesis using False by (simp add: bt_loop_stop)
  qed
  finally show ?thesis by (simp add: xs)
qed

lemma clean_elem_empty: "clean_elem R st [] = st"
  by (cases st) simp

lemma at_separator_dropWhile: "at_separator (dropWhile (\<lambda>x. x \<noteq> CHR ''/'') s)"
  by (induction s) (auto simp: at_separator_def)

lemma fold_element:
  assumes "CHR ''/'' \<notin> set e" "at_separator rest"
  shows "foldl (clean_elem R) st (Split (e @ rest) CHR ''/'')
       = foldl (clean_elem R) (clean_elem R st e) (Split rest CHR ''/'')"
proof (cases rest)
  case Nil
  then show ?thesis using assms(1) by (simp add: Split_no_sep clean_elem_empty)
next
  case (Cons c t)
  with assms(2) have "c = CHR ''/''" by (simp add: at_separator_def)
  then show ?thesis using assms(1) Cons by (simp add: Split_append Split_no_sep clean_elem_empty)
qed

lemma takeWhile_dot:
  "takeWhile (\<lambda>x. x \<noteq> CHR ''/'') rest = [] \<longleftrightarrow> at_separator rest"
  "takeWhile (\<lambda>x. x \<noteq> CHR ''/'') rest = ''.'' \<longleftrightarrow> take 1 rest = ''.'' \<and> at_separator (drop 1 rest)"
proof -
  show "takeWhile (\<lambda>x. x \<noteq> CHR ''/'') rest = [] \<longleftrightarrow> at_separator rest"
    by (cases rest) (auto simp: at_separator_def)
  show "takeWhile (\<lambda>x. x \<noteq> CHR ''/'') rest = ''.'' \<longleftrightarrow> take 1 rest = ''.'' \<and> at_separator (drop 1 rest)"
  proof (cases rest)
    case Nil
    then show ?thesis by simp
  next
    case (Cons d r2)
    then show ?thesis by (cases r2) (auto simp: at_separator_def)
  qed
qed

lemma dropWhile_dot:
  "at_separator rest \<Longrightarrow> dropWhile (\<lambda>x. x \<noteq> CHR ''/'') rest = rest"
  "take 1 rest = ''.'' \<Longrightarrow> at_separator (drop 1 rest)
     \<Longrightarrow> dropWhile (\<lambda>x. x \<noteq> CHR ''/'') rest = drop 1 rest"
proof -
  show "at_separator rest \<Longrightarrow> dropWhile (\<lambda>x. x \<noteq> CHR ''/'') rest = rest"
    by (cases rest) (auto simp: at_separator_def)
  show "take 1 rest = ''.'' \<Longrightarrow> at_separator (drop 1 rest)
     \<Longrightarrow> dropWhile (\<lambda>x. x \<noteq> CHR ''/'') rest = drop 1 rest"
  proof (cases rest)
    case Nil
    then show "take 1 rest = ''.'' \<Longrightarrow> ?thesis" by simp
  next
    case (Cons d r2)
    assume "take 1 rest = ''.''" "at_separator (drop 1 rest)"
    with Cons show ?thesis by (cases r2) (auto simp: at_separator_def)
  qed
qed

lemma clean_loop_elements:
  assumes "elements_ok outE" "ddE \<le> length outE" "R \<longrightarrow> ddE = 0"
  shows "clean_loop R rest (buffer_of R outE) (length (buffer_of R (take ddE outE)))
       = buffer_of R (fst (foldl (clean_elem R) (outE, ddE) (Split rest CHR ''/'')))"
  using assms
proof (induction "length rest" arbitrary: rest outE ddE rule: less_induct)
  case less
  note ok = less.prems(1) and le = less.prems(2) and rt = less.prems(3)
  let ?dd = "length (buffer_of R (take ddE outE))"
  show ?case
  proof (cases rest)
    case Nil
    then show ?thesis by (simp add: clean_elem_empty)
  next
    case (Cons c rest')
    show ?thesis
    proof (cases "c = CHR ''/''")
      case True
      have "clean_loop R rest (buffer_of R outE) ?dd = clean_loop R rest' (buffer_of R outE) ?dd"
        using Cons True by (simp add: clean_loop.simps(2))
      also have "\<dots> = buffer_of R (fst (foldl (clean_elem R) (outE, ddE) (Split rest' CHR ''/'')))"
        using less.hyps [of rest' outE ddE] Cons ok le rt by simp
      finally show ?thesis using Cons True by (simp add: clean_elem_empty)
    next
      case False
      let ?P = "\<lambda>x. x \<noteq> CHR ''/''"
      let ?e = "c # takeWhile ?P rest'"
      let ?rest'' = "dropWhile ?P rest'"
      have split: "rest = ?e @ ?rest''" using Cons by simp
      have ne: "CHR ''/'' \<notin> set ?e" using False by (auto dest: set_takeWhileD)
      have fold: "foldl (clean_elem R) (outE, ddE) (Split rest CHR ''/'')
          = foldl (clean_elem R) (clean_elem R (outE, ddE) ?e) (Split ?rest'' CHR ''/'')"
        unfolding split using ne at_separator_dropWhile by (rule fold_element)
      have len: "length ?rest'' < length rest"
        using Cons by (simp add: length_dropWhile_le le_imp_less_Suc)
      consider (dot) "c = CHR ''.''" "at_separator rest'"
        | (dotdot) "c = CHR ''.''" "\<not> at_separator rest'" "take 1 rest' = ''.''" "at_separator (drop 1 rest')"
        | (real) "\<not> (c = CHR ''.'' \<and> at_separator rest')"
            "\<not> (c = CHR ''.'' \<and> take 1 rest' = ''.'' \<and> at_separator (drop 1 rest'))"
        by blast
      then show ?thesis
      proof cases
        case dot
        have e: "?e = ''.''" using dot by (simp add: takeWhile_dot)
        have r: "?rest'' = rest'" using dot by (simp add: dropWhile_dot)
        have "clean_loop R rest (buffer_of R outE) ?dd = clean_loop R rest' (buffer_of R outE) ?dd"
          using Cons False dot by (simp add: clean_loop.simps(2))
        also have "\<dots> = buffer_of R (fst (foldl (clean_elem R) (outE, ddE) (Split rest' CHR ''/'')))"
          using less.hyps [of rest' outE ddE] Cons ok le rt by simp
        finally show ?thesis unfolding fold e r by simp
      next
        case dotdot
        have e: "?e = ''..''" using dotdot by (simp add: takeWhile_dot)
        have r: "?rest'' = drop 1 rest'" using dotdot by (simp add: dropWhile_dot)
        have len': "length (drop 1 rest') < length rest" using len r by simp
        have cond: "length (buffer_of R outE) > ?dd \<longleftrightarrow> length outE > ddE"
          using ok le by (rule buffer_of_cond)
        show ?thesis
        proof (cases "length outE > ddE")
          case True
          have okb: "elements_ok (butlast outE)" using ok by (auto simp: elements_ok_def dest: in_set_butlastD)
          have tk: "take ddE (butlast outE) = take ddE outE"
            using True by (simp add: take_butlast)
          have "clean_loop R rest (buffer_of R outE) ?dd
              = clean_loop R (drop 1 rest') (backtrack (buffer_of R outE) ?dd) ?dd"
            using Cons False dotdot True cond by (simp add: clean_loop.simps(2))
          also have "\<dots> = clean_loop R (drop 1 rest') (buffer_of R (butlast outE))
                (length (buffer_of R (take ddE (butlast outE))))"
            using backtrack_bytes [OF ok True] by (simp add: tk)
          also have "\<dots> = buffer_of R (fst (foldl (clean_elem R) (butlast outE, ddE)
                (Split (drop 1 rest') CHR ''/'')))"
            using less.hyps [OF len' okb _ rt] True by simp
          finally show ?thesis unfolding fold e r using True by simp
        next
          case notgt: False
          then have eq: "ddE = length outE" using le by simp
          show ?thesis
          proof (cases R)
            case True
            have "clean_loop R rest (buffer_of R outE) ?dd
              = clean_loop R (drop 1 rest') (buffer_of R outE) ?dd"
              using Cons False dotdot notgt cond True by (simp add: clean_loop.simps(2))
            also have "\<dots> = buffer_of R (fst (foldl (clean_elem R) (outE, ddE)
                (Split (drop 1 rest') CHR ''/'')))"
              using less.hyps [OF len' ok le rt] .
            finally show ?thesis unfolding fold e r using notgt True by simp
          next
            case nr: False
            let ?outE' = "outE @ [''..'']"
            have ok': "elements_ok ?outE'" using ok by (simp add: elements_ok_def)
            have pos: "length (buffer_of R outE) > 0 \<longleftrightarrow> outE \<noteq> []"
              using buffer_of_length_cond(2) [OF ok, of R] nr by simp
            have b: "(if length (buffer_of R outE) > 0 then buffer_of R outE @ ''/'' else buffer_of R outE) @ ''..''
                = buffer_of R ?outE'"
              using pos by (simp add: buffer_of_snoc)
            let ?X = "(if length (buffer_of R outE) > 0 then buffer_of R outE @ ''/'' else buffer_of R outE) @ ''..''"
            have "clean_loop R rest (buffer_of R outE) ?dd
              = clean_loop R (drop 1 rest') ?X (length ?X)"
              using Cons False dotdot notgt cond nr
              by (simp add: clean_loop.simps(2) Let_def)
            also have "\<dots> = clean_loop R (drop 1 rest') (buffer_of R ?outE') (length (buffer_of R ?outE'))"
              by (simp only: b)
            also have "\<dots> = clean_loop R (drop 1 rest') (buffer_of R ?outE')
                (length (buffer_of R (take (length outE + 1) ?outE')))"
              by simp
            also have "\<dots> = buffer_of R (fst (foldl (clean_elem R) (?outE', length outE + 1)
                (Split (drop 1 rest') CHR ''/'')))"
              using less.hyps [OF len' ok', of "length outE + 1"] nr by simp
            finally show ?thesis unfolding fold e r using notgt nr by simp
          qed
        qed
      next
        case real
        have e1: "?e \<noteq> ''.''" using real(1) by (auto simp: takeWhile_dot)
        have e2: "?e \<noteq> ''..''" using real(2) by (auto simp: takeWhile_dot)
        let ?outE' = "outE @ [?e]"
        have ok': "elements_ok ?outE'" using ok ne by (simp add: elements_ok_def)
        have step: "clean_elem R (outE, ddE) ?e = (?outE', ddE)" using e1 e2 by auto
        have c: "(R \<and> length (buffer_of R outE) \<noteq> 1 \<or> \<not> R \<and> length (buffer_of R outE) \<noteq> 0) \<longleftrightarrow> outE \<noteq> []"
          using ok by (rule buffer_of_length_cond(1))
        have b: "(if R \<and> length (buffer_of R outE) \<noteq> 1 \<or> \<not> R \<and> length (buffer_of R outE) \<noteq> 0
                  then buffer_of R outE @ ''/'' else buffer_of R outE) @ ?e = buffer_of R ?outE'"
          unfolding c by (simp add: buffer_of_snoc)
        have tk: "take ddE ?outE' = take ddE outE" using le by simp
        let ?X = "(if R \<and> length (buffer_of R outE) \<noteq> 1 \<or> \<not> R \<and> length (buffer_of R outE) \<noteq> 0
                  then buffer_of R outE @ ''/'' else buffer_of R outE) @ ?e"
        have "clean_loop R rest (buffer_of R outE) ?dd = clean_loop R ?rest'' ?X ?dd"
          unfolding Cons by (subst clean_loop.simps(2)) (simp only: False real if_False Let_def)
        also have "\<dots> = clean_loop R ?rest'' (buffer_of R ?outE') ?dd"
          by (simp only: b)
        also have "\<dots> = clean_loop R ?rest'' (buffer_of R ?outE') (length (buffer_of R (take ddE ?outE')))"
          by (simp only: tk)
        also have "\<dots> = buffer_of R (fst (foldl (clean_elem R) (?outE', ddE) (Split ?rest'' CHR ''/'')))"
          using less.hyps [OF len ok' _ rt] le by simp
        finally show ?thesis unfolding fold step by simp
      qed
    qed
  qed
qed


text \<open>The loop of the library computes what the reading by elements computes.\<close>

lemma Clean_by_elements:
  "Clean path =
     (if path = [] then ''.''
      else render (is_rooted path)
             (fst (foldl (clean_elem (is_rooted path)) ([], 0) (Split path CHR ''/''))))"
proof (cases path)
  case Nil
  then show ?thesis by (simp add: Clean_def)
next
  case (Cons c t)
  have r: "render R xs = (if buffer_of R xs = [] then ''.'' else buffer_of R xs)" for R xs
    by (simp add: render_def buffer_of_def Let_def)
  show ?thesis
  proof (cases "c = CHR ''/''")
    case True
    have "clean_loop True t ''/'' 1
        = buffer_of True (fst (foldl (clean_elem True) ([], 0) (Split t CHR ''/'')))"
      using clean_loop_elements [of "[]" 0 True t] by (simp add: elements_ok_def buffer_of_def)
    then show ?thesis
      using Cons True by (simp add: Clean_def is_rooted_def r Let_def)
  next
    case False
    have "clean_loop False path [] 0
        = buffer_of False (fst (foldl (clean_elem False) ([], 0) (Split path CHR ''/'')))"
      using clean_loop_elements [of "[]" 0 False path]
      by (simp add: elements_ok_def buffer_of_def)
    then show ?thesis
      using Cons False by (simp add: Clean_def is_rooted_def r Let_def)
  qed
qed

section \<open>The interceptors: the claims\<close>

subsection \<open>Hidden files\<close>

lemma hidden_part_iff:
  "hidden_part parts \<longleftrightarrow> (\<exists>part\<in>set parts. HasPrefix part ''.'' \<and> part \<noteq> ''.'' \<and> part \<noteq> ''..'')"
  by (induction parts) auto

text \<open>
  Claim C7. The hidden-file interceptor answers 403 without calling the next handler exactly
  if some segment of the cleaned URL path starts with a dot and is neither \<open>.\<close> nor
  \<open>..\<close>, and calls the next handler with the unchanged request otherwise;
  \<open>/index.html\<close> and \<open>/style.css\<close> pass, \<open>/.env\<close>, \<open>/.git/config\<close> and
  \<open>/dir/.hidden\<close> are rejected.
\<close>

theorem hidden_files_rejected:
  "(if \<exists>part\<in>set (Split (Clean (URL_Path r)) CHR ''/'').
          HasPrefix part ''.'' \<and> part \<noteq> ''.'' \<and> part \<noteq> ''..''
    then BlockHiddenFilesMiddleware rootDir next r w = http_Error w ''403 Forbidden'' 403
    else BlockHiddenFilesMiddleware rootDir next r w = next r w)
   \<and> (statusCode w = None \<longrightarrow> statusCode (http_Error w ''403 Forbidden'' 403) = Some 403)
   \<and> (URL_Path r \<in> {''/index.html'', ''/style.css''} \<longrightarrow>
        BlockHiddenFilesMiddleware rootDir next r w = next r w)
   \<and> (URL_Path r \<in> {''/.env'', ''/.git/config'', ''/dir/.hidden''} \<longrightarrow>
        BlockHiddenFilesMiddleware rootDir next r w = http_Error w ''403 Forbidden'' 403)"
proof -
  have ex: "\<not> hidden_part (Split (Clean ''/index.html'') CHR ''/'')"
    "\<not> hidden_part (Split (Clean ''/style.css'') CHR ''/'')"
    "hidden_part (Split (Clean ''/.env'') CHR ''/'')"
    "hidden_part (Split (Clean ''/.git/config'') CHR ''/'')"
    "hidden_part (Split (Clean ''/dir/.hidden'') CHR ''/'')"
    by (simp_all add: Clean_by_elements is_rooted_def render_def HasPrefix_def)
  show ?thesis
    using ex
    by (auto simp add: BlockHiddenFilesMiddleware_def Let_def hidden_part_iff [symmetric]
        StatusForbidden_def http_Error_status)
qed

theorem hidden_files_rejected_witness:
  "statusCode (BlockHiddenFilesMiddleware ''.'' testHandler (NewRequest ''GET'' ''/.git/config'') NewRecorder) = Some 403
   \<and> statusCode (BlockHiddenFilesMiddleware ''.'' testHandler (NewRequest ''GET'' ''/index.html'') NewRecorder) = Some 200"
proof -
  have a: "URL_Path (NewRequest ''GET'' ''/.git/config'') \<in> {''/.env'', ''/.git/config'', ''/dir/.hidden''}"
    by (simp add: NewRequest_def)
  have b: "URL_Path (NewRequest ''GET'' ''/index.html'') \<in> {''/index.html'', ''/style.css''}"
    by (simp add: NewRequest_def)
  have c: "statusCode NewRecorder = None" by (simp add: NewRecorder_def)
  have d: "statusCode (testHandler (NewRequest ''GET'' ''/index.html'') NewRecorder) = Some 200"
    by (simp add: testHandler_def NewRecorder_def Write_def WriteHeader_def Let_def)
  show ?thesis
    using a b c d
      hidden_files_rejected [of "NewRequest ''GET'' ''/.git/config''" "''.''" testHandler NewRecorder]
      hidden_files_rejected [of "NewRequest ''GET'' ''/index.html''" "''.''" testHandler NewRecorder]
    by simp
qed

subsection \<open>Path normalization\<close>

text \<open>
  Claim C3, amended. The path-normalization interceptor cleans the URL path and answers 403
  without calling the next handler exactly if the cleaned path contains the two bytes
  \<open>..\<close> anywhere (which every \<open>..\<close> segment does); otherwise it forwards the
  request with the cleaned path.
\<close>

theorem path_traversal_rejects_substring:
  "(if Contains (Clean (URL_Path r)) ''..''
    then PathTraversalMiddleware rootDir next r w = http_Error w ''403 Forbidden'' 403
    else PathTraversalMiddleware rootDir next r w = next (r\<lparr>URL_Path := Clean (URL_Path r)\<rparr>) w)
   \<and> (''..'' \<in> set (Split (Clean (URL_Path r)) CHR ''/'') \<longrightarrow> Contains (Clean (URL_Path r)) ''..'')
   \<and> (statusCode w = None \<longrightarrow> statusCode (http_Error w ''403 Forbidden'' 403) = Some 403)"
proof -
  have "Contains ''..'' ''..''" by (simp add: HasPrefix_def)
  then have "''..'' \<in> set (Split (Clean (URL_Path r)) CHR ''/'') \<longrightarrow> Contains (Clean (URL_Path r)) ''..''"
    using segment_Contains by blast
  then show ?thesis
    by (simp add: PathTraversalMiddleware_def Let_def StatusForbidden_def http_Error_status)
qed

theorem path_traversal_rejects_substring_witness:
  "statusCode (PathTraversalMiddleware ''.'' testHandler (NewRequest ''GET'' ''../secret'') NewRecorder) = Some 403
   \<and> ''..'' \<in> set (Split (Clean ''../secret'') CHR ''/'')
   \<and> PathTraversalMiddleware ''.'' testHandler (NewRequest ''GET'' ''/path/with/../dots'') NewRecorder
       = testHandler (NewRequest ''GET'' ''/path/dots'') NewRecorder"
proof -
  have c1: "Clean (URL_Path (NewRequest ''GET'' ''../secret'')) = ''../secret''"
    by (simp add: NewRequest_def Clean_by_elements is_rooted_def render_def)
  have c2: "Clean (URL_Path (NewRequest ''GET'' ''/path/with/../dots'')) = ''/path/dots''"
    by (simp add: NewRequest_def Clean_by_elements is_rooted_def render_def)
  have y: "Contains ''../secret'' ''..''" by (simp add: HasPrefix_def)
  have n: "\<not> Contains ''/path/dots'' ''..''" by (simp add: HasPrefix_def)
  have f: "statusCode NewRecorder = None" by (simp add: NewRecorder_def)
  have 1: "statusCode (PathTraversalMiddleware ''.'' testHandler (NewRequest ''GET'' ''../secret'') NewRecorder) = Some 403"
    using path_traversal_rejects_substring [of "NewRequest ''GET'' ''../secret''" "''.''" testHandler NewRecorder]
    by (simp only: c1 y f if_True simp_thms)
  have 2: "PathTraversalMiddleware ''.'' testHandler (NewRequest ''GET'' ''/path/with/../dots'') NewRecorder
       = testHandler (NewRequest ''GET'' ''/path/dots'') NewRecorder"
  proof -
    have "PathTraversalMiddleware ''.'' testHandler (NewRequest ''GET'' ''/path/with/../dots'') NewRecorder
       = testHandler ((NewRequest ''GET'' ''/path/with/../dots'')\<lparr>URL_Path := ''/path/dots''\<rparr>) NewRecorder"
      using path_traversal_rejects_substring [of "NewRequest ''GET'' ''/path/with/../dots''" "''.''" testHandler NewRecorder]
      by (simp only: c2 n if_False simp_thms)
    then show ?thesis by (simp add: NewRequest_def)
  qed
  have 3: "''..'' \<in> set (Split (Clean ''../secret'') CHR ''/'')"
    using c1 by (simp add: NewRequest_def)
  show ?thesis using 1 2 3 by simp
qed

text \<open>
  Claim C3 as stated fails: the cleaned form of \<open>/a..b\<close> has no \<open>..\<close> segment, and
  the interceptor answers 403.
\<close>

theorem path_traversal_counterexample:
  "statusCode (PathTraversalMiddleware ''.'' testHandler (NewRequest ''GET'' ''/a..b'') NewRecorder) = Some 403
   \<and> ''..'' \<notin> set (Split (Clean ''/a..b'') CHR ''/'')"
proof -
  have c: "Clean ''/a..b'' = ''/a..b''"
    by (simp add: Clean_by_elements is_rooted_def render_def)
  show ?thesis
    by (simp add: c PathTraversalMiddleware_def NewRequest_def NewRecorder_def HasPrefix_def
        http_Error_def Write_def WriteHeader_def Header_Set_def Header_Del_def Let_def StatusForbidden_def)
qed

subsection \<open>CORS\<close>

lemma origin_allowed_iff:
  "origin_allowed origins origin \<longleftrightarrow> ''*'' \<in> set origins \<or> origin \<in> set origins"
  by (induction origins) auto

lemma cors_headers_origin:
  "header (cors_headers config origin w) ''Access-Control-Allow-Origin''
     = Some (if AllowedOrigins config = [''*''] then ''*'' else origin)"
proof -
  have "(length (AllowedOrigins config) = 1 \<and> AllowedOrigins config ! 0 = ''*'')
      \<longleftrightarrow> AllowedOrigins config = [''*'']"
    by (cases "AllowedOrigins config") auto
  then show ?thesis
    by (simp add: cors_headers_def Header_Set_def Let_def)
qed

lemma WriteHeader_fresh:
  "statusCode w = None \<Longrightarrow> statusCode (WriteHeader w code) = Some code"
  by (simp add: WriteHeader_def)

lemma WriteHeader_keeps: "header (WriteHeader w code) = header w" "written (WriteHeader w code) = written w"
  by (simp_all add: WriteHeader_def)

lemma cors_headers_status:
  "statusCode (cors_headers config origin w) = statusCode w"
  "written (cors_headers config origin w) = written w"
  by (simp_all add: cors_headers_def Header_Set_def Let_def)

text \<open>
  Claim C2, amended. With CORS enabled, an origin is allowed exactly if some configured
  entry is \<open>*\<close> or equals the origin. When it is allowed, the allow-origin header is
  \<open>*\<close> if the configured list is exactly \<open>[*]\<close> and the origin of the request
  otherwise; when it is not, the interceptor sets no header. Every \<open>OPTIONS\<close> request is
  answered 204 with nothing written and without calling the next handler, whatever the
  origin.
\<close>

theorem cors_any_wildcard_entry:
  assumes "CORS_Enabled config"
  shows "(origin_allowed (AllowedOrigins config) (Header_Get r ''Origin'')
           \<longleftrightarrow> ''*'' \<in> set (AllowedOrigins config) \<or> Header_Get r ''Origin'' \<in> set (AllowedOrigins config))
    \<and> (origin_allowed (AllowedOrigins config) (Header_Get r ''Origin'') \<longrightarrow>
         CORSMiddleware config next r w
           = (if Method r = ''OPTIONS''
              then WriteHeader (cors_headers config (Header_Get r ''Origin'') w) 204
              else next r (cors_headers config (Header_Get r ''Origin'') w))
         \<and> header (cors_headers config (Header_Get r ''Origin'') w) ''Access-Control-Allow-Origin''
             = Some (if AllowedOrigins config = [''*''] then ''*'' else Header_Get r ''Origin''))
    \<and> (\<not> origin_allowed (AllowedOrigins config) (Header_Get r ''Origin'') \<longrightarrow>
         CORSMiddleware config next r w
           = (if Method r = ''OPTIONS'' then WriteHeader w 204 else next r w))
    \<and> (Method r = ''OPTIONS'' \<longrightarrow> statusCode w = None \<longrightarrow>
         statusCode (CORSMiddleware config next r w) = Some 204
         \<and> written (CORSMiddleware config next r w) = written w
         \<and> CORSMiddleware config next r w = CORSMiddleware config next' r w)"
  using assms
  by (simp add: origin_allowed_iff cors_headers_origin CORSMiddleware_def Let_def
      StatusNoContent_def WriteHeader_fresh WriteHeader_keeps cors_headers_status)

theorem cors_any_wildcard_entry_witness:
  "CORS_Enabled test_cors_config
   \<and> header (CORSMiddleware test_cors_config testHandler
        (with_header (NewRequest ''GET'' ''/'') ''Origin'' ''https://example.com'') NewRecorder)
        ''Access-Control-Allow-Origin'' = Some ''https://example.com''
   \<and> header (CORSMiddleware test_cors_config testHandler
        (with_header (NewRequest ''GET'' ''/'') ''Origin'' ''https://evil.com'') NewRecorder)
        ''Access-Control-Allow-Origin'' = None
   \<and> statusCode (CORSMiddleware test_cors_config testHandler
        (with_header (NewRequest ''OPTIONS'' ''/'') ''Origin'' ''https://evil.com'') NewRecorder)
        = Some 204"
proof -
  have e: "CORS_Enabled test_cors_config" by (simp add: test_cors_config_def)
  let ?good = "with_header (NewRequest ''GET'' ''/'') ''Origin'' ''https://example.com''"
  let ?evil = "with_header (NewRequest ''GET'' ''/'') ''Origin'' ''https://evil.com''"
  let ?pre = "with_header (NewRequest ''OPTIONS'' ''/'') ''Origin'' ''https://evil.com''"
  have g: "Header_Get ?good ''Origin'' = ''https://example.com''" "Method ?good = ''GET''"
    and v: "Header_Get ?evil ''Origin'' = ''https://evil.com''" "Method ?evil = ''GET''"
    and p: "Header_Get ?pre ''Origin'' = ''https://evil.com''" "Method ?pre = ''OPTIONS''"
    by (simp_all add: with_header_def NewRequest_def Header_Get_def)
  have o: "AllowedOrigins test_cors_config = [''https://example.com'']"
    by (simp add: test_cors_config_def)
  have t: "\<And>r w. header (testHandler r w) = header w"
    by (simp add: testHandler_def Write_def WriteHeader_def Let_def)
  have f: "statusCode NewRecorder = None" "header NewRecorder = Map.empty"
    by (simp_all add: NewRecorder_def)
  have 1: "header (CORSMiddleware test_cors_config testHandler ?good NewRecorder)
        ''Access-Control-Allow-Origin'' = Some ''https://example.com''"
    using cors_any_wildcard_entry [OF e, of ?good testHandler NewRecorder testHandler]
    by (simp add: g o t)
  have 2: "header (CORSMiddleware test_cors_config testHandler ?evil NewRecorder)
        ''Access-Control-Allow-Origin'' = None"
    using cors_any_wildcard_entry [OF e, of ?evil testHandler NewRecorder testHandler]
    by (simp add: v o t f)
  have 3: "statusCode (CORSMiddleware test_cors_config testHandler ?pre NewRecorder) = Some 204"
    using cors_any_wildcard_entry [OF e, of ?pre testHandler NewRecorder testHandler]
    by (simp add: p f)
  show ?thesis using e 1 2 3 by simp
qed

text \<open>
  Claim C2 as stated fails: with the origins \<open>[*, https://example.com]\<close> the origin
  \<open>https://evil.com\<close> matches no entry exactly and the list is not the single wildcard,
  yet the origin is allowed and echoed.
\<close>

theorem cors_wildcard_entry_counterexample:
  "header (CORSMiddleware wildcard_among_origins testHandler
      (with_header (NewRequest ''GET'' ''/'') ''Origin'' ''https://evil.com'') NewRecorder)
      ''Access-Control-Allow-Origin'' = Some ''https://evil.com''
   \<and> ''https://evil.com'' \<notin> set (AllowedOrigins wildcard_among_origins)
   \<and> AllowedOrigins wildcard_among_origins \<noteq> [''*'']"
  by (simp add: wildcard_among_origins_def CORSMiddleware_def cors_headers_def with_header_def
      NewRequest_def NewRecorder_def Header_Get_def Header_Set_def testHandler_def Write_def
      WriteHeader_def Let_def)

subsection \<open>The address filter\<close>

lemma listed_iff: "listed ip entries \<longleftrightarrow> ip \<in> set entries"
  by (induction entries) auto

text \<open>
  Claim C6, amended. The filter compares the client key with the entries as strings and
  validates nothing: a request is rejected exactly if its key is on the deny-list, or the
  allow-list is not empty and does not hold the key. An address that \<open>SplitHostPort\<close>
  cannot parse has its brackets trimmed and is compared like any other: with an allow-list
  it is rejected unless listed literally; with a deny-list alone it passes unless listed.
\<close>

theorem ip_filter_compares_literally:
  "IPFilterMiddleware whitelist blacklist next r w
     = (if clientIP (RemoteAddr r) \<in> set blacklist
           \<or> (whitelist \<noteq> [] \<and> clientIP (RemoteAddr r) \<notin> set whitelist)
        then http_Error w ''403 Forbidden'' 403 else next r w)
   \<and> (\<forall>err. SplitHostPort (RemoteAddr r) = Inl err
         \<longrightarrow> clientIP (RemoteAddr r) = Trim (RemoteAddr r) ''[]'')
   \<and> (statusCode w = None \<longrightarrow> statusCode (http_Error w ''403 Forbidden'' 403) = Some 403)"
  by (auto simp add: IPFilterMiddleware_def Let_def listed_iff StatusForbidden_def clientIP_def
      http_Error_status)

lemma SplitHostPort_garbage: "SplitHostPort ''garbage'' = Inl MissingPort"
  by (simp add: SplitHostPort_def LastIndexByte_def)

theorem ip_filter_compares_literally_witness:
  "statusCode (IPFilterMiddleware [''192.168.1.100''] [] testHandler
      ((NewRequest ''GET'' ''/'')\<lparr>RemoteAddr := ''garbage''\<rparr>) NewRecorder) = Some 403
   \<and> SplitHostPort ''garbage'' = Inl MissingPort
   \<and> clientIP ''garbage'' = ''garbage''"
proof -
  let ?r = "(NewRequest ''GET'' ''/'')\<lparr>RemoteAddr := ''garbage''\<rparr>"
  have a: "RemoteAddr ?r = ''garbage''" by simp
  have t: "Trim ''garbage'' ''[]'' = ''garbage''" by (simp add: Trim_def)
  have f: "statusCode NewRecorder = None" by (simp add: NewRecorder_def)
  have c: "clientIP ''garbage'' = ''garbage''"
    using ip_filter_compares_literally [of "[''192.168.1.100'']" "[]" testHandler ?r NewRecorder]
      SplitHostPort_garbage
    by (simp only: a t)
  then have "statusCode (IPFilterMiddleware [''192.168.1.100''] [] testHandler ?r NewRecorder) = Some 403"
    using ip_filter_compares_literally [of "[''192.168.1.100'']" "[]" testHandler ?r NewRecorder] f
    by (simp add: a)
  then show ?thesis using c SplitHostPort_garbage by simp
qed

text \<open>
  Claim C6 as stated fails: with a deny-list alone, the unparseable address \<open>garbage\<close>
  is let through to the next handler.
\<close>

theorem ip_filter_counterexample:
  "SplitHostPort ''garbage'' = Inl MissingPort
   \<and> statusCode (IPFilterMiddleware [] [''192.168.1.100''] testHandler
        ((NewRequest ''GET'' ''/'')\<lparr>RemoteAddr := ''garbage''\<rparr>) NewRecorder) = Some 200"
  by (simp add: SplitHostPort_garbage IPFilterMiddleware_def clientIP_def Trim_def Let_def
      testHandler_def NewRecorder_def Write_def WriteHeader_def)

text \<open>The client keys of \<open>TestClientIP\<close>.\<close>

lemma clientIP_examples:
  "clientIP ''192.168.0.10:8080'' = ''192.168.0.10''"
  "clientIP ''192.168.0.10'' = ''192.168.0.10''"
  "clientIP ''[2001:db8::1]:443'' = ''2001:db8::1''"
  "clientIP ''[2001:db8::1]'' = ''2001:db8::1''"
  by (simp_all add: clientIP_def SplitHostPort_def LastIndexByte_def bracket_checks_def
      HasPrefix_def Trim_def)

section \<open>The file handler: conditional requests\<close>

lemma etag_of_not_empty: "etag_of info \<noteq> []"
  by (simp add: etag_of_def)

text \<open>The validator determines the modification time and the size: the hexadecimal digits
  of a number determine it, no digit is the sign or the hyphen, and so the string splits in
  one way only.\<close>

declare digits.simps [simp del]

lemma hex_digit_inj:
  assumes "i < 16" "j < 16" "''0123456789abcdef'' ! i = ''0123456789abcdef'' ! j"
  shows "i = j"
proof -
  have "distinct ''0123456789abcdef''" by simp
  moreover have "i < length ''0123456789abcdef''" "j < length ''0123456789abcdef''"
    using assms by simp_all
  ultimately show ?thesis using assms(3) by (simp only: nth_eq_iff_index_eq)
qed

lemma hex_digit_mem: "i < 16 \<Longrightarrow> ''0123456789abcdef'' ! i \<in> set ''0123456789abcdef''"
  by (rule nth_mem) simp

lemma digits16_not_Nil: "digits 16 n \<noteq> []"
  by (subst digits.simps) simp

lemma digits16_hex: "set (digits 16 n) \<subseteq> set ''0123456789abcdef''"
proof (induction n rule: less_induct)
  case (less n)
  show ?case
  proof (cases "n < 16")
    case True
    then show ?thesis using hex_digit_mem [of n] by (subst digits.simps) simp
  next
    case False
    then have "n div 16 < n" by simp
    then have "set (digits 16 (n div 16)) \<subseteq> set ''0123456789abcdef''" by (rule less.IH)
    moreover have "''0123456789abcdef'' ! (n mod 16) \<in> set ''0123456789abcdef''"
      by (rule hex_digit_mem) simp
    ultimately show ?thesis using False by (subst digits.simps) simp
  qed
qed

lemma digits16_no_minus: "CHR ''-'' \<notin> set (digits 16 n)"
  using digits16_hex [of n] by auto

lemma digits16_inj: "digits 16 n = digits 16 m \<Longrightarrow> n = m"
proof (induction n arbitrary: m rule: less_induct)
  case (less n)
  have one: "k < 16 \<Longrightarrow> digits 16 k = [''0123456789abcdef'' ! k]" for k
    by (subst digits.simps) simp
  have more: "\<not> k < 16 \<Longrightarrow>
      digits 16 k = digits 16 (k div 16) @ [''0123456789abcdef'' ! (k mod 16)]" for k
    by (subst digits.simps) simp
  show ?case
  proof (cases "n < 16")
    case n: True
    show ?thesis
    proof (cases "m < 16")
      case True
      then show ?thesis using n less.prems hex_digit_inj [of n m] by (simp add: one)
    next
      case False
      then show ?thesis using n less.prems digits16_not_Nil [of "m div 16"]
        by (simp add: one more)
    qed
  next
    case n: False
    show ?thesis
    proof (cases "m < 16")
      case True
      then show ?thesis using n less.prems digits16_not_Nil [of "n div 16"]
        by (simp add: one more)
    next
      case False
      from less.prems have e: "digits 16 (n div 16) = digits 16 (m div 16)"
        and d: "''0123456789abcdef'' ! (n mod 16) = ''0123456789abcdef'' ! (m mod 16)"
        using n False by (simp_all add: more)
      have "n div 16 < n" using n by simp
      then have "n div 16 = m div 16" using e by (rule less.IH)
      moreover have "n mod 16 = m mod 16" using d by (intro hex_digit_inj) simp_all
      ultimately show ?thesis by (metis div_mult_mod_eq)
    qed
  qed
qed

lemma fmt_x_split:
  assumes "fmt_x a @ CHR ''-'' # s = fmt_x b @ CHR ''-'' # t"
  shows "a = b \<and> s = t"
proof -
  have tw: "takeWhile (\<lambda>c. c \<noteq> CHR ''-'') (digits 16 k @ CHR ''-'' # u) = digits 16 k" for k u
    using digits16_no_minus [of k] by (auto simp add: takeWhile_append2 takeWhile_tail)
  have key: "n = m \<and> s = t" if h: "digits 16 n @ CHR ''-'' # s = digits 16 m @ CHR ''-'' # t"
    for n m s t
  proof -
    have "takeWhile (\<lambda>c. c \<noteq> CHR ''-'') (digits 16 n @ CHR ''-'' # s)
        = takeWhile (\<lambda>c. c \<noteq> CHR ''-'') (digits 16 m @ CHR ''-'' # t)"
      by (simp only: h)
    then have e: "digits 16 n = digits 16 m" by (simp only: tw)
    then have "n = m" by (rule digits16_inj)
    moreover have "s = t" using h e by simp
    ultimately show ?thesis by simp
  qed
  have hd: "hd (digits 16 n @ u) \<noteq> CHR ''-''" for n u
  proof -
    have "hd (digits 16 n @ u) = hd (digits 16 n)"
      using digits16_not_Nil [of n] by (simp add: hd_append)
    moreover have "hd (digits 16 n) \<in> set (digits 16 n)"
      using digits16_not_Nil [of n] by (rule hd_in_set)
    ultimately show ?thesis using digits16_no_minus [of n] by auto
  qed
  have heads: "hd (fmt_x a @ CHR ''-'' # s) = hd (fmt_x b @ CHR ''-'' # t)"
    by (simp only: assms)
  consider "a < 0" "b < 0" | "a < 0" "\<not> b < 0" | "\<not> a < 0" "b < 0" | "\<not> a < 0" "\<not> b < 0"
    by blast
  then show ?thesis
  proof cases
    case 1
    then have "digits 16 (nat (- a)) @ CHR ''-'' # s = digits 16 (nat (- b)) @ CHR ''-'' # t"
      using assms by (simp add: fmt_x_def)
    then have "nat (- a) = nat (- b) \<and> s = t" by (rule key)
    then show ?thesis using 1 by linarith
  next
    case 2
    then have "CHR ''-'' = hd (digits 16 (nat b) @ CHR ''-'' # t)"
      using heads by (simp add: fmt_x_def)
    then show ?thesis using hd [of "nat b" "CHR ''-'' # t"] by simp
  next
    case 3
    then have "hd (digits 16 (nat a) @ CHR ''-'' # s) = CHR ''-''"
      using heads by (simp add: fmt_x_def)
    then show ?thesis using hd [of "nat a" "CHR ''-'' # s"] by simp
  next
    case 4
    then have "digits 16 (nat a) @ CHR ''-'' # s = digits 16 (nat b) @ CHR ''-'' # t"
      using assms by (simp add: fmt_x_def)
    then have "nat a = nat b \<and> s = t" by (rule key)
    then show ?thesis using 4 by linarith
  qed
qed

lemma etag_of_inj:
  "etag_of i = etag_of j \<longleftrightarrow> ModTime_Unix i = ModTime_Unix j \<and> Size i = Size j"
proof
  assume "etag_of i = etag_of j"
  then have "fmt_x (ModTime_Unix i) @ CHR ''-'' # (fmt_x (Size i) @ [CHR 0x22])
           = fmt_x (ModTime_Unix j) @ CHR ''-'' # (fmt_x (Size j) @ [CHR 0x22])"
    by (simp add: etag_of_def)
  then have m: "ModTime_Unix i = ModTime_Unix j"
    and "fmt_x (Size i) @ [CHR 0x22] = fmt_x (Size j) @ [CHR 0x22]"
    using fmt_x_split by blast+
  then have "fmt_x (Size i) @ CHR ''-'' # [] = fmt_x (Size j) @ CHR ''-'' # []" by simp
  then have "Size i = Size j" using fmt_x_split by blast
  then show "ModTime_Unix i = ModTime_Unix j \<and> Size i = Size j" using m by simp
next
  assume "ModTime_Unix i = ModTime_Unix j \<and> Size i = Size j"
  then show "etag_of i = etag_of j" by (simp add: etag_of_def)
qed

text \<open>
  Claim C8. With ETags enabled, \<open>serveFile\<close> sets the \<open>ETag\<close> header to the validator
  of the file, the modification time and the size in hexadecimal digits between quotes,
  which two files share exactly if their modification times and sizes are equal. A request
  that does not carry this validator is handed to \<open>http.ServeFile\<close> with the header set.
  A repeat request that carries exactly this validator, for a file with the same modification
  time and size, is answered 304 with the header set, nothing written to the body and the
  file not read; once the modification time or the size has changed, the same request is
  handed to \<open>http.ServeFile\<close> with the new validator. With ETags disabled there is
  neither header nor 304.
\<close>

theorem etag_round_trip:
  "(etag_of info' = etag_of info
      \<longleftrightarrow> ModTime_Unix info' = ModTime_Unix info \<and> Size info' = Size info)
   \<and> (Header_Get r ''If-None-Match'' \<noteq> etag_of info \<longrightarrow>
        serveFile True ServeFile w r path info
          = ServeFile (Header_Set w ''ETag'' (etag_of info)) r path)
   \<and> header (Header_Set w ''ETag'' (etag_of info)) ''ETag'' = Some (etag_of info)
   \<and> (Header_Get r' ''If-None-Match'' = etag_of info \<longrightarrow>
        ModTime_Unix info' = ModTime_Unix info \<longrightarrow> Size info' = Size info \<longrightarrow>
          serveFile True ServeFile w' r' path' info'
            = WriteHeader (Header_Set w' ''ETag'' (etag_of info)) 304
          \<and> written (serveFile True ServeFile w' r' path' info') = written w'
          \<and> header (serveFile True ServeFile w' r' path' info') ''ETag'' = Some (etag_of info)
          \<and> (statusCode w' = None \<longrightarrow>
               statusCode (serveFile True ServeFile w' r' path' info') = Some 304))
   \<and> (Header_Get r' ''If-None-Match'' = etag_of info \<longrightarrow>
        (ModTime_Unix info' \<noteq> ModTime_Unix info \<or> Size info' \<noteq> Size info) \<longrightarrow>
          serveFile True ServeFile w' r' path' info'
            = ServeFile (Header_Set w' ''ETag'' (etag_of info')) r' path')
   \<and> serveFile False ServeFile w r path info = ServeFile w r path"
proof -
  have 1: "etag_of info' = etag_of info
      \<longleftrightarrow> ModTime_Unix info' = ModTime_Unix info \<and> Size info' = Size info"
    by (rule etag_of_inj)
  have 2: "Header_Get r ''If-None-Match'' \<noteq> etag_of info \<longrightarrow>
        serveFile True ServeFile w r path info
          = ServeFile (Header_Set w ''ETag'' (etag_of info)) r path"
    by (simp add: serveFile_def Let_def)
  have 3: "header (Header_Set w ''ETag'' (etag_of info)) ''ETag'' = Some (etag_of info)"
    by (simp add: Header_Set_def)
  have 4: "serveFile True ServeFile w' r' path' info'
            = WriteHeader (Header_Set w' ''ETag'' (etag_of info)) 304
          \<and> written (serveFile True ServeFile w' r' path' info') = written w'
          \<and> header (serveFile True ServeFile w' r' path' info') ''ETag'' = Some (etag_of info)
          \<and> (statusCode w' = None \<longrightarrow>
               statusCode (serveFile True ServeFile w' r' path' info') = Some 304)"
    if m: "Header_Get r' ''If-None-Match'' = etag_of info"
      and e: "ModTime_Unix info' = ModTime_Unix info" "Size info' = Size info"
  proof -
    have "etag_of info' = etag_of info" using e by (simp add: etag_of_inj)
    then have s: "serveFile True ServeFile w' r' path' info'
        = WriteHeader (Header_Set w' ''ETag'' (etag_of info)) 304"
      using m etag_of_not_empty [of info]
      by (simp add: serveFile_def Let_def StatusNotModified_def)
    show ?thesis by (simp add: s WriteHeader_def Header_Set_def)
  qed
  have 5: "serveFile True ServeFile w' r' path' info'
            = ServeFile (Header_Set w' ''ETag'' (etag_of info')) r' path'"
    if m: "Header_Get r' ''If-None-Match'' = etag_of info"
      and e: "ModTime_Unix info' \<noteq> ModTime_Unix info \<or> Size info' \<noteq> Size info"
  proof -
    have "etag_of info \<noteq> etag_of info'" using e etag_of_inj [of info info'] by auto
    then show ?thesis using m by (simp add: serveFile_def Let_def)
  qed
  have 6: "serveFile False ServeFile w r path info = ServeFile w r path"
    by (simp add: serveFile_def)
  show ?thesis using 1 2 3 4 5 6 by blast
qed

theorem etag_round_trip_witness:
  "etag_of test_file = [CHR 0x22] @ ''6553f100-4d2'' @ [CHR 0x22]
   \<and> serveFile True (\<lambda>w r path. Write w ''<html>'') NewRecorder
        (NewRequest ''GET'' ''/index.html'') ''index.html'' test_file
      = \<lparr>header = [''ETag'' \<mapsto> etag_of test_file], statusCode = Some 200,
         written = [(Plain, ''<html>'')], via = Plain\<rparr>
   \<and> serveFile True (\<lambda>w r path. Write w ''<html>'') NewRecorder
        (with_header (NewRequest ''GET'' ''/index.html'') ''If-None-Match'' (etag_of test_file))
        ''index.html'' (test_file\<lparr>Name := ''again''\<rparr>)
      = \<lparr>header = [''ETag'' \<mapsto> etag_of test_file], statusCode = Some 304, written = [], via = Plain\<rparr>
   \<and> serveFile True (\<lambda>w r path. Write w ''<html>'') NewRecorder
        (with_header (NewRequest ''GET'' ''/index.html'') ''If-None-Match'' (etag_of test_file))
        ''index.html'' (test_file\<lparr>Size := 1235\<rparr>)
      = \<lparr>header = [''ETag'' \<mapsto> etag_of (test_file\<lparr>Size := 1235\<rparr>)], statusCode = Some 200,
         written = [(Plain, ''<html>'')], via = Plain\<rparr>"
proof -
  let ?S = "\<lambda>w r path. Write w ''<html>''"
  let ?q = "NewRequest ''GET'' ''/index.html''"
  let ?r = "with_header ?q ''If-None-Match'' (etag_of test_file)"
  have n: "Header_Get ?q ''If-None-Match'' \<noteq> etag_of test_file"
    using etag_of_not_empty [of test_file] by (simp add: NewRequest_def Header_Get_def)
  have h: "Header_Get ?r ''If-None-Match'' = etag_of test_file"
    by (simp add: with_header_def Header_Get_def)
  have a: "ModTime_Unix (test_file\<lparr>Name := ''again''\<rparr>) = ModTime_Unix test_file"
    and b: "Size (test_file\<lparr>Name := ''again''\<rparr>) = Size test_file" by simp_all
  have c: "ModTime_Unix (test_file\<lparr>Size := 1235\<rparr>) \<noteq> ModTime_Unix test_file
      \<or> Size (test_file\<lparr>Size := 1235\<rparr>) \<noteq> Size test_file"
    by (simp add: test_file_def)
  have v: "etag_of test_file = [CHR 0x22] @ ''6553f100-4d2'' @ [CHR 0x22]"
    by (simp add: etag_of_def test_file_def fmt_x_def digits.simps)
  note t1 = etag_round_trip [of test_file test_file ?q ?S NewRecorder "''index.html''"]
  note t2 = etag_round_trip [of "test_file\<lparr>Name := ''again''\<rparr>" test_file ?q ?S NewRecorder
      "''index.html''" ?r NewRecorder "''index.html''"]
  note t3 = etag_round_trip [of "test_file\<lparr>Size := 1235\<rparr>" test_file ?q ?S NewRecorder
      "''index.html''" ?r NewRecorder "''index.html''"]
  have 1: "serveFile True ?S NewRecorder ?q ''index.html'' test_file
      = ?S (Header_Set NewRecorder ''ETag'' (etag_of test_file)) ?q ''index.html''"
    using t1 n by blast
  have 2: "serveFile True ?S NewRecorder ?r ''index.html'' (test_file\<lparr>Name := ''again''\<rparr>)
      = WriteHeader (Header_Set NewRecorder ''ETag'' (etag_of test_file)) 304"
    using t2 h a b by blast
  have 3: "serveFile True ?S NewRecorder ?r ''index.html'' (test_file\<lparr>Size := 1235\<rparr>)
      = ?S (Header_Set NewRecorder ''ETag'' (etag_of (test_file\<lparr>Size := 1235\<rparr>))) ?r ''index.html''"
    using t3 h c by blast
  show ?thesis
    unfolding 1 2 3 using v
    by (simp add: Write_def WriteHeader_def Header_Set_def NewRecorder_def Let_def)
qed

section \<open>Compression\<close>

text \<open>
  Claim C10. Unless the \<open>Accept-Encoding\<close> header of the request contains \<open>gzip\<close>,
  the compression interceptor is the next handler on the writer it was given: no
  \<open>Content-Encoding\<close> header, no gzip writer. So the header and the gzip writer appear
  only for a request that accepts gzip, and for a valid level they do appear there: the next
  handler writes through the gzip writer, and the stream is closed when it returns.
\<close>

theorem compression_only_for_gzip:
  "(\<not> Contains (Header_Get r ''Accept-Encoding'') ''gzip'' \<longrightarrow>
      CompressionMiddleware level next r w = next r w)
   \<and> (CompressionMiddleware level next r w \<noteq> next r w \<longrightarrow>
        Contains (Header_Get r ''Accept-Encoding'') ''gzip'')
   \<and> (Contains (Header_Get r ''Accept-Encoding'') ''gzip'' \<longrightarrow> - 2 \<le> level \<longrightarrow> level \<le> 9 \<longrightarrow>
        CompressionMiddleware level next r w
          = (gzip_Close level
               (next r ((Header_Set w ''Content-Encoding'' ''gzip'')\<lparr>via := Gzip level\<rparr>)))
            \<lparr>via := via w\<rparr>)"
  by (auto simp add: CompressionMiddleware_def Let_def)

theorem compression_only_for_gzip_witness:
  "CompressionMiddleware 6 testHandler (NewRequest ''GET'' ''/'') NewRecorder
     = \<lparr>header = Map.empty, statusCode = Some 200, written = [(Plain, ''OK'')], via = Plain\<rparr>
   \<and> CompressionMiddleware 6 testHandler
       (with_header (NewRequest ''GET'' ''/'') ''Accept-Encoding'' ''gzip, deflate'') NewRecorder
     = \<lparr>header = [''Content-Encoding'' \<mapsto> ''gzip''], statusCode = Some 200,
        written = [(Gzip 6, ''OK''), (Gzip 6, [])], via = Plain\<rparr>"
proof -
  let ?r = "with_header (NewRequest ''GET'' ''/'') ''Accept-Encoding'' ''gzip, deflate''"
  have n: "\<not> Contains (Header_Get (NewRequest ''GET'' ''/'') ''Accept-Encoding'') ''gzip''"
    by (simp add: NewRequest_def Header_Get_def)
  have y: "Contains (Header_Get ?r ''Accept-Encoding'') ''gzip''"
    by (simp add: with_header_def Header_Get_def HasPrefix_def)
  have 1: "CompressionMiddleware 6 testHandler (NewRequest ''GET'' ''/'') NewRecorder
      = testHandler (NewRequest ''GET'' ''/'') NewRecorder"
    using compression_only_for_gzip [of "NewRequest ''GET'' ''/''" 6 testHandler NewRecorder] n by blast
  have 2: "CompressionMiddleware 6 testHandler ?r NewRecorder
      = (gzip_Close 6
           (testHandler ?r ((Header_Set NewRecorder ''Content-Encoding'' ''gzip'')\<lparr>via := Gzip 6\<rparr>)))
        \<lparr>via := via NewRecorder\<rparr>"
    using compression_only_for_gzip [of ?r 6 testHandler NewRecorder] y by simp
  show ?thesis
    unfolding 1 2
    by (simp add: testHandler_def NewRecorder_def gzip_Close_def Write_def WriteHeader_def
        Header_Set_def Let_def)
qed

section \<open>The file handler: the resolved path\<close>

lemma fold_no_dotdot:
  "''..'' \<notin> set es \<Longrightarrow>
     foldl (clean_elem R) (out, dd) es = (out @ filter (\<lambda>e. e \<noteq> [] \<and> e \<noteq> ''.'') es, dd)"
  by (induction es arbitrary: out) auto

lemma fold_plain:
  "\<forall>e\<in>set es. CHR ''/'' \<notin> set e \<Longrightarrow> \<forall>x\<in>set out. plain_element x
     \<Longrightarrow> \<forall>x\<in>set (fst (foldl (clean_elem R) (out, dd) es)). plain_element x"
proof (induction es arbitrary: out dd)
  case Nil
  then show ?case by simp
next
  case (Cons e es)
  obtain out' dd' where s: "clean_elem R (out, dd) e = (out', dd')" by (cases "clean_elem R (out, dd) e")
  have "\<forall>x\<in>set out'. plain_element x"
    using s Cons.prems by (auto simp: plain_element_def split: if_splits dest: in_set_butlastD)
  then show ?case using Cons.IH [of out' dd'] Cons.prems(1) s by simp
qed

lemma fold_rooted_no_dotdot:
  "''..'' \<notin> set out \<Longrightarrow> ''..'' \<notin> set (fst (foldl (clean_elem True) (out, dd) es))"
proof (induction es arbitrary: out dd)
  case Nil
  then show ?case by simp
next
  case (Cons e es)
  obtain out' dd' where s: "clean_elem True (out, dd) e = (out', dd')" by (cases "clean_elem True (out, dd) e")
  have "''..'' \<notin> set out'"
    using s Cons.prems by (auto split: if_splits dest: in_set_butlastD)
  then show ?case using Cons.IH [of out' dd'] s by simp
qed

lemma Join_not_Nil: "xs \<noteq> [] \<Longrightarrow> hd xs \<noteq> [] \<Longrightarrow> Join xs sep \<noteq> []"
  by (cases xs; cases "tl xs") auto

lemma Join_hd: "xs \<noteq> [] \<Longrightarrow> hd xs \<noteq> [] \<Longrightarrow> hd (Join xs sep) = hd (hd xs)"
  by (cases xs; cases "tl xs") auto

lemma Split_render:
  assumes "\<forall>x\<in>set xs. plain_element x"
  shows "Split (render R xs) CHR ''/'' =
     (if xs = [] then (if R then [[], []] else [''.'']) else (if R then [] # xs else xs))"
proof (cases "xs = []")
  case True
  then show ?thesis by (simp add: render_def)
next
  case False
  have ns: "\<forall>x\<in>set xs. CHR ''/'' \<notin> set x" using assms by (simp add: plain_element_def)
  have hd: "hd xs \<noteq> []" using assms False by (cases xs) (auto simp: plain_element_def)
  have j: "Join xs ''/'' \<noteq> []" using False hd by (rule Join_not_Nil)
  have s: "Split (Join xs ''/'') CHR ''/'' = xs" using Split_Join [OF False ns] by simp
  show ?thesis using False j s by (simp add: render_def)
qed

lemma elements_render: "\<forall>x\<in>set xs. plain_element x \<Longrightarrow> elements (render R xs) = xs"
  by (auto simp add: elements_def Split_render plain_element_def filter_id_conv)

lemma is_rooted_render:
  assumes "\<forall>x\<in>set xs. plain_element x"
  shows "is_rooted (render R xs) = R"
proof (cases "xs = []")
  case True
  then show ?thesis by (simp add: render_def is_rooted_def)
next
  case False
  then obtain x ys where xs: "xs = x # ys" by (cases xs) auto
  then obtain a b where x: "x = a # b" and a: "a \<noteq> CHR ''/''"
    using assms by (cases x) (auto simp: plain_element_def)
  have "Join xs ''/'' = a # (b @ (if ys = [] then [] else ''/'' @ Join ys ''/''))"
    using xs x by (cases ys) auto
  then show ?thesis using a by (simp add: render_def is_rooted_def)
qed

lemma Clean_as_render:
  assumes "path \<noteq> []"
  shows "Clean path = render (is_rooted path)
           (fst (foldl (clean_elem (is_rooted path)) ([], 0) (Split path CHR ''/'')))"
  using assms by (simp add: Clean_by_elements)

lemma Clean_out_plain:
  "\<forall>x\<in>set (fst (foldl (clean_elem R) ([], 0) (Split path CHR ''/''))). plain_element x"
  using fold_plain [of "Split path CHR ''/''" "[]" R 0] Split_elem_no_sep [of _ path "CHR ''/''"]
  by auto

lemma is_rooted_append: "a \<noteq> [] \<Longrightarrow> is_rooted (a @ b) = is_rooted a"
  by (cases a) (simp_all add: is_rooted_def)

text \<open>Joining a path without a .. element under a root stays within the root.\<close>

lemma join_within_root:
  assumes root: "rootDir \<noteq> []" and nd: "''..'' \<notin> set (Split c CHR ''/'')"
  shows "within_root rootDir (filepath_Join [rootDir, c])"
proof -
  let ?R = "is_rooted rootDir"
  obtain out dd where st: "foldl (clean_elem ?R) ([], 0) (Split rootDir CHR ''/'') = (out, dd)"
    by (cases "foldl (clean_elem ?R) ([], 0) (Split rootDir CHR ''/'')")
  let ?rest = "filter (\<lambda>e. e \<noteq> [] \<and> e \<noteq> ''.'') (Split c CHR ''/'')"
  have g_out: "\<forall>x\<in>set out. plain_element x" using Clean_out_plain [of ?R rootDir] st by simp
  have g_rest: "\<forall>x\<in>set ?rest. plain_element x"
    using Split_elem_no_sep [of _ c "CHR ''/''"] by (auto simp: plain_element_def)
  have cr: "Clean rootDir = render ?R out" using root st by (simp add: Clean_as_render)
  have j: "filepath_Join [rootDir, c] = Clean (rootDir @ CHR ''/'' # c)" using root by simp
  have "foldl (clean_elem ?R) ([], 0) (Split (rootDir @ CHR ''/'' # c) CHR ''/'')
      = (out @ ?rest, dd)"
    using st nd by (simp add: Split_append fold_no_dotdot)
  then have cj: "Clean (rootDir @ CHR ''/'' # c) = render ?R (out @ ?rest)"
    using root by (simp add: Clean_as_render is_rooted_append)
  have e1: "elements (Clean rootDir) = out" using g_out by (simp add: cr elements_render)
  have e2: "elements (filepath_Join [rootDir, c]) = out @ ?rest"
    using g_out g_rest by (simp only: j cj) (rule elements_render, auto)
  have r1: "is_rooted (Clean rootDir) = ?R" using g_out by (simp add: cr is_rooted_render)
  have r2: "is_rooted (filepath_Join [rootDir, c]) = ?R"
    using g_out g_rest by (simp only: j cj) (rule is_rooted_render, auto)
  have "''..'' \<notin> set ?rest" using nd by simp
  then show ?thesis unfolding within_root_def Let_def e1 e2 r1 r2 by simp
qed

lemma Clean_no_dotdot_elem:
  assumes "is_rooted path \<or> ''..'' \<notin> set (Split path CHR ''/'')"
  shows "''..'' \<notin> set (Split (Clean path) CHR ''/'')"
proof (cases "path = []")
  case True
  then show ?thesis by (simp add: Clean_by_elements)
next
  case False
  define R where "R = is_rooted path"
  define out where "out = fst (foldl (clean_elem R) ([], 0) (Split path CHR ''/''))"
  have g: "\<forall>x\<in>set out. plain_element x" unfolding out_def by (rule Clean_out_plain)
  have nd: "''..'' \<notin> set out"
  proof (cases R)
    case True
    then show ?thesis
      unfolding out_def using fold_rooted_no_dotdot [of "[]" 0 "Split path CHR ''/''"] by simp
  next
    case False
    with assms have "''..'' \<notin> set (Split path CHR ''/'')" by (simp add: R_def)
    then show ?thesis unfolding out_def by (simp add: fold_no_dotdot)
  qed
  have "Clean path = render R out"
    using False by (simp add: Clean_as_render R_def out_def)
  then show ?thesis using g nd by (simp add: Split_render)
qed

lemma no_substring_no_elem:
  "\<not> Contains s ''..'' \<Longrightarrow> ''..'' \<notin> set (Split s CHR ''/'')"
  using segment_Contains [of "''..''" s "CHR ''/''" "''..''"] by (auto simp: HasPrefix_def)

text \<open>
  Claim C5. For a non-empty root directory and every request URL path, the path that the file
  handler stats and serves lies within the root: for every path that begins with a
  separator (what the HTTP server delivers) the root joined with the cleaned path is within
  the root, also when the path has \<open>..\<close> segments; and for any path at all, the
  normalizer, which precedes the file handler in every chain, either answers 403 or forwards
  a request whose resolved path is within the root.
\<close>

theorem resolved_path_within_root:
  assumes "rootDir \<noteq> []"
  shows "(is_rooted (URL_Path r) \<longrightarrow> within_root rootDir (resolve_path rootDir (URL_Path r)))
    \<and> (PathTraversalMiddleware rootDir next r w = http_Error w ''403 Forbidden'' 403
        \<or> PathTraversalMiddleware rootDir next r w = next (r\<lparr>URL_Path := Clean (URL_Path r)\<rparr>) w
          \<and> within_root rootDir (resolve_path rootDir (Clean (URL_Path r))))"
proof -
  have a: "is_rooted (URL_Path r) \<longrightarrow> within_root rootDir (resolve_path rootDir (URL_Path r))"
    unfolding resolve_path_def
    using join_within_root [OF assms] Clean_no_dotdot_elem [of "URL_Path r"] by blast
  have b: "within_root rootDir (resolve_path rootDir (Clean (URL_Path r)))"
    if "\<not> Contains (Clean (URL_Path r)) ''..''"
    unfolding resolve_path_def
    using that join_within_root [OF assms] Clean_no_dotdot_elem [of "Clean (URL_Path r)"]
      no_substring_no_elem by blast
  show ?thesis
    using a b by (auto simp add: PathTraversalMiddleware_def Let_def StatusForbidden_def)
qed

theorem resolved_path_within_root_witness:
  "''/srv/www'' \<noteq> [] \<and> is_rooted ''/../../etc/passwd''
   \<and> resolve_path ''/srv/www'' ''/../../etc/passwd'' = ''/srv/www/etc/passwd''
   \<and> within_root ''/srv/www'' ''/srv/www/etc/passwd''
   \<and> \<not> within_root ''/srv/www'' ''/srv/secret''"
proof -
  have h: "''/srv/www'' \<noteq> []" by simp
  have p: "URL_Path (NewRequest ''GET'' ''/../../etc/passwd'') = ''/../../etc/passwd''"
    by (simp add: NewRequest_def)
  have r: "is_rooted ''/../../etc/passwd''" by (simp add: is_rooted_def)
  have e: "resolve_path ''/srv/www'' ''/../../etc/passwd'' = ''/srv/www/etc/passwd''"
    by (simp add: resolve_path_def Clean_by_elements is_rooted_def render_def)
  have c: "Clean ''/srv/www'' = ''/srv/www''"
    by (simp add: Clean_by_elements is_rooted_def render_def)
  have n: "\<not> within_root ''/srv/www'' ''/srv/secret''"
    by (simp add: within_root_def c elements_def is_rooted_def)
  have "within_root ''/srv/www'' (resolve_path ''/srv/www'' ''/../../etc/passwd'')"
    using resolved_path_within_root [OF h, of "NewRequest ''GET'' ''/../../etc/passwd''"] r
    by (simp only: p)
  then show ?thesis using h r e n by simp
qed

text \<open>The file handler itself verifies nothing: for a relative path, which the normalizer
  rejects, the joined path would leave the root.\<close>

lemma relative_path_needs_normalizer:
  "resolve_path ''/srv/www'' ''../secret'' = ''/srv/secret''
   \<and> \<not> within_root ''/srv/www'' ''/srv/secret''
   \<and> Contains (Clean ''../secret'') ''..''"
proof -
  have c: "Clean ''/srv/www'' = ''/srv/www''" "Clean ''../secret'' = ''../secret''"
    by (simp_all add: Clean_by_elements is_rooted_def render_def)
  have "resolve_path ''/srv/www'' ''../secret'' = ''/srv/secret''"
    by (simp add: resolve_path_def Clean_by_elements is_rooted_def render_def)
  moreover have "\<not> within_root ''/srv/www'' ''/srv/secret''"
    by (simp add: within_root_def c elements_def is_rooted_def)
  moreover have "Contains (Clean ''../secret'') ''..''"
    by (simp add: c HasPrefix_def)
  ultimately show ?thesis by simp
qed

end
